theory Spec2Isabelle
  imports Main "HOL-Library.Sublist" "HOL-Library.AList" "HOL-Library.Multiset"
begin

section \<open>Data model (ini.go, lines 18-45)\<close>

text \<open>
  Go strings and byte slices are sequences of bytes; a HOL \<open>char\<close> is one byte, so both
  are \<open>char list\<close>.

  A Go map is modelled as an association list with pairwise distinct keys. The order of
  the list stands for the order in which a \<^verbatim>\<open>range\<close> loop happens to visit the
  entries: Go leaves that order unspecified, and a statement that holds for every
  association list holds for every order. Lookup is \<open>map_of\<close>, assignment
  \<open>m[k] = v\<close> is \<open>AList.update\<close>, \<open>delete(m, k)\<close> is \<open>AList.delete\<close>.

  A store comes from \<open>New\<close>, so its section map is never nil, and the package stores
  only maps it has made: no section is a nil map (the test \<open>s != nil\<close> in
  \<open>SectionGet\<close> fails only for an absent section).
\<close>

type_synonym bytes = string

type_synonym Kvmap = "(string \<times> string) list"

type_synonym SectionMap = "(string \<times> Kvmap) list"

definition DefaultSection :: string where
  "DefaultSection = ''''"

definition DefaultLineSeparator :: string where
  "DefaultLineSeparator = [CHR 0x0A]"

definition DefaultKeyValueSeparator :: string where
  "DefaultKeyValueSeparator = ''=''"

record INI =
  sections :: SectionMap
  lineSep :: string
  kvSep :: string
  parseSection :: bool
  skipCommits :: bool
  trimQuotes :: bool

text \<open>
  Go's \<open>error\<close> interface: \<open>ErrorString\<close> is what \<open>errors.New\<close> builds,
  \<open>NumError\<close> is strconv's conversion failure (syntax or range) with the text it
  failed on, \<open>IOError\<close> is whatever the I/O layer reports. A nil error is \<open>None\<close>.
\<close>

datatype error = ErrorString string | NumError string | IOError string

definition New :: INI where
  "New = \<lparr>sections = [], lineSep = DefaultLineSeparator, kvSep = DefaultKeyValueSeparator,
          parseSection = False, skipCommits = False, trimQuotes = False\<rparr>"

definition Reset :: "INI \<Rightarrow> INI" where
  "Reset ini = ini\<lparr>sections := []\<rparr>"

definition SetSkipCommits :: "INI \<Rightarrow> bool \<Rightarrow> INI" where
  "SetSkipCommits ini b = ini\<lparr>skipCommits := b\<rparr>"

definition SetParseSection :: "INI \<Rightarrow> bool \<Rightarrow> INI" where
  "SetParseSection ini b = ini\<lparr>parseSection := b\<rparr>"

definition SetTrimQuotes :: "INI \<Rightarrow> bool \<Rightarrow> INI" where
  "SetTrimQuotes ini v = ini\<lparr>trimQuotes := v\<rparr>"

text \<open>
  The representation invariant of the association lists: the keys of a Go map are
  pairwise distinct, at both levels.
\<close>

definition distinctKeys :: "('k \<times> 'v) list \<Rightarrow> bool" where
  "distinctKeys m = distinct (map fst m)"

definition wfSections :: "SectionMap \<Rightarrow> bool" where
  "wfSections secs = (distinctKeys secs \<and> list_all (\<lambda>p. distinctKeys (snd p)) secs)"

section \<open>The Go library functions the package calls\<close>

subsection \<open>bytes.Index\<close>

text \<open>
  \<open>bytes.Index(s, sep)\<close>: the index of the first instance of \<open>sep\<close> in \<open>s\<close>, or -1;
  the empty separator is found at index 0.
\<close>

fun Index :: "bytes \<Rightarrow> bytes \<Rightarrow> int" where
  "Index [] sep = (if sep = [] then 0 else -1)"
| "Index (c # t) sep =
     (if prefix sep (c # t) then 0
      else (let r = Index t sep in if r < 0 then -1 else r + 1))"

subsection \<open>utf8.DecodeRune and bytes.Split\<close>

definition byte :: "char \<Rightarrow> nat" where
  "byte c = of_char c"

definition inRange :: "nat \<Rightarrow> nat \<Rightarrow> char \<Rightarrow> bool" where
  "inRange lo hi c = (lo \<le> byte c \<and> byte c \<le> hi)"

text \<open>
  The width \<open>utf8.DecodeRune\<close> returns: the length of the well-formed UTF-8 encoding
  the slice starts with, 1 for a byte that starts none (the decoder then yields
  RuneError), 0 for the empty slice. The second byte's accepted range depends on the
  first (Go's \<open>acceptRanges\<close>).
\<close>

fun DecodeRuneSize :: "bytes \<Rightarrow> nat" where
  "DecodeRuneSize [] = 0"
| "DecodeRuneSize (c # t) =
     (let x = byte c in
      if x < 0x80 then 1
      else if 0xC2 \<le> x \<and> x \<le> 0xDF then
        (case t of b1 # _ \<Rightarrow> if inRange 0x80 0xBF b1 then 2 else 1 | _ \<Rightarrow> 1)
      else if 0xE0 \<le> x \<and> x \<le> 0xEF then
        (case t of b1 # b2 # _ \<Rightarrow>
           if inRange (if x = 0xE0 then 0xA0 else 0x80) (if x = 0xED then 0x9F else 0xBF) b1
              \<and> inRange 0x80 0xBF b2 then 3 else 1
         | _ \<Rightarrow> 1)
      else if 0xF0 \<le> x \<and> x \<le> 0xF4 then
        (case t of b1 # b2 # b3 # _ \<Rightarrow>
           if inRange (if x = 0xF0 then 0x90 else 0x80) (if x = 0xF4 then 0x8F else 0xBF) b1
              \<and> inRange 0x80 0xBF b2 \<and> inRange 0x80 0xBF b3 then 4 else 1
         | _ \<Rightarrow> 1)
      else 1)"

text \<open>
  \<open>explode\<close> is what \<open>bytes.Split\<close> does with an empty separator: one slice per
  UTF-8 sequence, and no slice at all for empty input.
\<close>

function explode :: "bytes \<Rightarrow> bytes list" where
  "explode s =
     (if s = [] then []
      else take (DecodeRuneSize s) s # explode (drop (DecodeRuneSize s) s))"
  by pat_completeness auto
termination
proof (relation "measure length")
  show "wf (measure length)" by simp
next
  fix s :: bytes
  assume "s \<noteq> []"
  then obtain c t where s: "s = c # t" by (cases s) auto
  have "0 < DecodeRuneSize (c # t)"
    by (simp add: Let_def split: list.splits)
  with s show "(drop (DecodeRuneSize s) s, s) \<in> measure length" by simp
qed

declare explode.simps [simp del]

text \<open>
  \<open>genSplit\<close> is \<open>bytes.Split\<close> for a non-empty separator: cut at the first instance
  of \<open>sep\<close>, continue behind it, and end with the rest (so the result always has at
  least one element, and a trailing separator yields a trailing empty slice).
\<close>

function genSplit :: "bytes \<Rightarrow> bytes \<Rightarrow> bytes list" where
  "genSplit s sep =
     (let m = Index s sep in
      if m < 0 \<or> sep = [] then [s]
      else take (nat m) s # genSplit (drop (nat m + length sep) s) sep)"
  by pat_completeness auto
termination
proof (relation "measure (\<lambda>(s, sep). length s)")
  show "wf (measure (\<lambda>(s, sep). length s))" by simp
next
  fix s sep :: bytes and m :: int
  assume m: "m = Index s sep" and c: "\<not> (m < 0 \<or> sep = [])"
  have "0 \<le> Index s sep \<Longrightarrow> nat (Index s sep) + length sep \<le> length s"
  proof (induction s)
    case Nil
    then show ?case by (simp split: if_splits)
  next
    case (Cons a s)
    show ?case
    proof (cases "prefix sep (a # s)")
      case True
      then show ?thesis using prefix_length_le by fastforce
    next
      case False
      with Cons show ?thesis by (simp add: Let_def split: if_splits)
    qed
  qed
  with m c have "nat m + length sep \<le> length s" and "sep \<noteq> []" by auto
  then have "length (drop (nat m + length sep) s) < length s"
    by (cases sep) auto
  then show "((drop (nat m + length sep) s, sep), (s, sep)) \<in> measure (\<lambda>(s, sep). length s)"
    by simp
qed

declare genSplit.simps [simp del]

definition Split :: "bytes \<Rightarrow> bytes \<Rightarrow> bytes list" where
  "Split s sep = (if sep = [] then explode s else genSplit s sep)"

subsection \<open>bytes.TrimSpace and bytes.Trim\<close>

text \<open>
  \<open>bytes.TrimSpace\<close> slices off all leading and trailing white space as Unicode
  defines it (\<open>unicode.IsSpace\<close>), decoding UTF-8 from the front and from the back.
  Each white-space code point has exactly one well-formed encoding, listed here: the six
  ASCII ones, U+0085, U+00A0, U+1680, U+2000 to U+200A, U+2028, U+2029, U+202F, U+205F
  and U+3000. A slice starts (ends) with a white-space rune exactly when it starts
  (ends) with one of these byte sequences.
\<close>

definition spaceRunes :: "bytes list" where
  "spaceRunes =
    [[CHR 0x09], [CHR 0x0A], [CHR 0x0B], [CHR 0x0C], [CHR 0x0D], [CHR 0x20],
     [CHR 0xC2, CHR 0x85], [CHR 0xC2, CHR 0xA0],
     [CHR 0xE1, CHR 0x9A, CHR 0x80],
     [CHR 0xE2, CHR 0x80, CHR 0x80], [CHR 0xE2, CHR 0x80, CHR 0x81],
     [CHR 0xE2, CHR 0x80, CHR 0x82], [CHR 0xE2, CHR 0x80, CHR 0x83],
     [CHR 0xE2, CHR 0x80, CHR 0x84], [CHR 0xE2, CHR 0x80, CHR 0x85],
     [CHR 0xE2, CHR 0x80, CHR 0x86], [CHR 0xE2, CHR 0x80, CHR 0x87],
     [CHR 0xE2, CHR 0x80, CHR 0x88], [CHR 0xE2, CHR 0x80, CHR 0x89],
     [CHR 0xE2, CHR 0x80, CHR 0x8A],
     [CHR 0xE2, CHR 0x80, CHR 0xA8], [CHR 0xE2, CHR 0x80, CHR 0xA9],
     [CHR 0xE2, CHR 0x80, CHR 0xAF],
     [CHR 0xE2, CHR 0x81, CHR 0x9F],
     [CHR 0xE3, CHR 0x80, CHR 0x80]]"

definition leadingSpace :: "bytes \<Rightarrow> nat" where
  "leadingSpace s =
     (case List.find (\<lambda>w. prefix w s) spaceRunes of None \<Rightarrow> 0 | Some w \<Rightarrow> length w)"

definition trailingSpace :: "bytes \<Rightarrow> nat" where
  "trailingSpace s =
     (case List.find (\<lambda>w. suffix w s) spaceRunes of None \<Rightarrow> 0 | Some w \<Rightarrow> length w)"

function TrimLeftSpace :: "bytes \<Rightarrow> bytes" where
  "TrimLeftSpace s =
     (if leadingSpace s = 0 then s else TrimLeftSpace (drop (leadingSpace s) s))"
  by pat_completeness auto
termination
proof (relation "measure length")
  show "wf (measure length)" by simp
next
  fix s :: bytes
  assume n: "leadingSpace s \<noteq> 0"
  have "leadingSpace [] = 0" by (simp add: leadingSpace_def spaceRunes_def)
  with n have "s \<noteq> []" by auto
  with n show "(drop (leadingSpace s) s, s) \<in> measure length" by simp
qed

declare TrimLeftSpace.simps [simp del]

function TrimRightSpace :: "bytes \<Rightarrow> bytes" where
  "TrimRightSpace s =
     (if trailingSpace s = 0 then s
      else TrimRightSpace (take (length s - trailingSpace s) s))"
  by pat_completeness auto
termination
proof (relation "measure length")
  show "wf (measure length)" by simp
next
  fix s :: bytes
  assume n: "trailingSpace s \<noteq> 0"
  have "trailingSpace [] = 0" by (simp add: trailingSpace_def spaceRunes_def)
  with n have "s \<noteq> []" by auto
  with n show "(take (length s - trailingSpace s) s, s) \<in> measure length" by simp
qed

declare TrimRightSpace.simps [simp del]

definition TrimSpace :: "bytes \<Rightarrow> bytes" where
  "TrimSpace s = TrimRightSpace (TrimLeftSpace s)"

text \<open>
  \<open>bytes.Trim(s, cutset)\<close> for an ASCII cutset: the leading and the trailing bytes that
  are in the cutset are sliced off.
\<close>

definition Trim :: "bytes \<Rightarrow> string \<Rightarrow> bytes" where
  "Trim s cutset =
     rev (dropWhile (\<lambda>c. c \<in> set cutset) (rev (dropWhile (\<lambda>c. c \<in> set cutset) s)))"

subsection \<open>strconv.Atoi\<close>

text \<open>
  \<open>strconv.Atoi\<close>: an optional sign and then one or more decimal digits, nothing
  else; the value has to fit Go's \<open>int\<close>, taken here as 64 bits wide. Every failure
  is a \<open>NumError\<close>.
\<close>

definition isDigit :: "char \<Rightarrow> bool" where
  "isDigit c = inRange 48 57 c"

fun digitsValue :: "int \<Rightarrow> string \<Rightarrow> int option" where
  "digitsValue n [] = Some n"
| "digitsValue n (ch # cs) =
     (if isDigit ch then digitsValue (n * 10 + int (byte ch - 48)) cs else None)"

definition Atoi :: "string \<Rightarrow> error + int" where
  "Atoi s =
     (let neg = (case s of c # _ \<Rightarrow> c = CHR ''-'' | [] \<Rightarrow> False);
          ds = (case s of c # t \<Rightarrow> if c = CHR ''-'' \<or> c = CHR ''+'' then t else s | [] \<Rightarrow> s)
      in if ds = [] then Inl (NumError s)
         else (case digitsValue 0 ds of
                 None \<Rightarrow> Inl (NumError s)
               | Some n \<Rightarrow>
                   if neg then (if 2 ^ 63 < n then Inl (NumError s) else Inr (- n))
                   else (if 2 ^ 63 \<le> n then Inl (NumError s) else Inr n)))"

section \<open>Getters (ini.go, lines 96-182)\<close>

definition SectionGet :: "INI \<Rightarrow> string \<Rightarrow> string \<Rightarrow> string \<times> bool" where
  "SectionGet ini section key =
     (case map_of (sections ini) section of
        None \<Rightarrow> ('''', False)
      | Some s \<Rightarrow> (case map_of s key of None \<Rightarrow> ('''', False) | Some v \<Rightarrow> (v, True)))"

definition Get :: "INI \<Rightarrow> string \<Rightarrow> string \<times> bool" where
  "Get ini key = SectionGet ini DefaultSection key"

definition SectionGetInt :: "INI \<Rightarrow> string \<Rightarrow> string \<Rightarrow> int \<times> bool" where
  "SectionGetInt ini section key =
     (let (v, ok) = SectionGet ini section key in
      if ok then (case Atoi v of Inr n \<Rightarrow> (n, True) | Inl err \<Rightarrow> (0, ok))
      else (0, ok))"

definition GetInt :: "INI \<Rightarrow> string \<Rightarrow> int \<times> bool" where
  "GetInt ini key = SectionGetInt ini DefaultSection key"

text \<open>
  \<open>strconv.ParseFloat\<close> is a parameter of the float getter: the getter's control flow
  does not depend on how a float64 is read.
\<close>

definition SectionGetFloat ::
    "(string \<Rightarrow> error + 'f) \<Rightarrow> INI \<Rightarrow> string \<Rightarrow> string \<Rightarrow> ('f::zero) \<times> bool" where
  "SectionGetFloat ParseFloat ini section key =
     (let (v, ok) = SectionGet ini section key in
      if ok then (case ParseFloat v of Inr x \<Rightarrow> (x, True) | Inl err \<Rightarrow> (0, ok))
      else (0, ok))"

definition GetFloat :: "(string \<Rightarrow> error + 'f) \<Rightarrow> INI \<Rightarrow> string \<Rightarrow> ('f::zero) \<times> bool" where
  "GetFloat ParseFloat ini key = SectionGetFloat ParseFloat ini DefaultSection key"

definition truthy :: "string list" where
  "truthy = [''1'', ''t'', ''T'', ''true'', ''TRUE'', ''True'',
             ''on'', ''ON'', ''On'', ''yes'', ''YES'', ''Yes'']"

definition falsy :: "string list" where
  "falsy = [''0'', ''f'', ''F'', ''false'', ''FALSE'', ''False'',
            ''off'', ''OFF'', ''Off'', ''no'', ''NO'', ''No'']"

definition SectionGetBool :: "INI \<Rightarrow> string \<Rightarrow> string \<Rightarrow> bool \<times> bool" where
  "SectionGetBool ini section key =
     (let (v, ok) = SectionGet ini section key in
      if ok then
        (if v \<in> set truthy then (True, True)
         else if v \<in> set falsy then (False, True)
         else (False, False))
      else (False, False))"

definition GetBool :: "INI \<Rightarrow> string \<Rightarrow> bool \<times> bool" where
  "GetBool ini key = SectionGetBool ini DefaultSection key"

definition GetKvmap :: "INI \<Rightarrow> string \<Rightarrow> Kvmap option" where
  "GetKvmap ini section = map_of (sections ini) section"

definition GetAll :: "INI \<Rightarrow> SectionMap" where
  "GetAll ini = sections ini"

section \<open>Setters and Delete (ini.go, lines 184-247)\<close>

definition SectionSet :: "INI \<Rightarrow> string \<Rightarrow> string \<Rightarrow> string \<Rightarrow> INI" where
  "SectionSet ini section key val =
     (let kvmap = (case map_of (sections ini) section of None \<Rightarrow> [] | Some kv \<Rightarrow> kv)
      in ini\<lparr>sections := AList.update section (AList.update key val kvmap) (sections ini)\<rparr>)"

definition Set :: "INI \<Rightarrow> string \<Rightarrow> string \<Rightarrow> INI" where
  "Set ini key val = SectionSet ini DefaultSection key val"

definition SectionSetBool :: "INI \<Rightarrow> string \<Rightarrow> string \<Rightarrow> bool \<Rightarrow> INI" where
  "SectionSetBool ini section key val =
     SectionSet ini section key (if val then ''true'' else ''false'')"

definition SetBool :: "INI \<Rightarrow> string \<Rightarrow> bool \<Rightarrow> INI" where
  "SetBool ini key val = SectionSetBool ini DefaultSection key val"

text \<open>
  \<open>Delete\<close> removes the key from the map object of the section, in place: the section
  keeps its entry in \<open>sections\<close>.
\<close>

definition Delete :: "INI \<Rightarrow> string \<Rightarrow> string \<Rightarrow> INI" where
  "Delete ini section key =
     (case GetKvmap ini section of
        Some kvmap \<Rightarrow> ini\<lparr>sections := AList.update section (AList.delete key kvmap) (sections ini)\<rparr>
      | None \<Rightarrow> ini)"

section \<open>Write (ini.go, lines 249-301)\<close>

text \<open>
  The writer is taken to accept every byte (a \<open>bytes.Buffer\<close>, say), so \<open>Write\<close>
  returns nil and what it has written is the value of the model. \<open>write'\<close> is the
  unexported method \<open>write\<close>, which writes one section's pairs.
\<close>

definition write' :: "INI \<Rightarrow> Kvmap \<Rightarrow> bytes" where
  "write' ini kv = concat (map (\<lambda>(k, v). k @ kvSep ini @ v @ lineSep ini) kv)"

definition Write :: "INI \<Rightarrow> bytes" where
  "Write ini =
     (case GetKvmap ini DefaultSection of Some kv \<Rightarrow> write' ini kv | None \<Rightarrow> [])
     @ concat (map (\<lambda>(section, kv).
                 if section = DefaultSection then []
                 else ''['' @ section @ '']'' @ lineSep ini @ write' ini kv)
               (sections ini))"

section \<open>Parsing (ini.go, lines 47-73 and 303-347)\<close>

text \<open>
  The state of the loop in \<open>parseINI\<close>: the section map of the store and the two local
  variables \<open>section\<close> (the field \<open>section'\<close>) and \<open>kvmap\<close>. \<open>kvmap\<close> is always the very map object that
  \<open>ini.sections[section]\<close> holds (both are assigned together, before the loop and at
  every header), so the assignment \<open>kvmap[k] = v\<close> is written through to the section
  map.
\<close>

record loopState =
  secs :: SectionMap
  section' :: string
  kvmap :: Kvmap

text \<open>The assignment \<open>kvmap[k] = v\<close>, written through to \<open>ini.sections[section]\<close>.\<close>

definition kvmapAssign :: "loopState \<Rightarrow> string \<Rightarrow> string \<Rightarrow> loopState" where
  "kvmapAssign st k v =
     (let kvmap' = AList.update k v (kvmap st)
      in st\<lparr>secs := AList.update (section' st) kvmap' (secs st), kvmap := kvmap'\<rparr>)"

definition formatError :: "bytes \<Rightarrow> error" where
  "formatError line =
     ErrorString (''Came accross an error : '' @ line @ '' is NOT a valid key/value pair'')"

text \<open>
  One iteration of the loop over the lines: \<open>Inr\<close> is the state the next iteration
  starts from (also after a \<open>continue\<close>), \<open>Inl\<close> is the error \<open>parseINI\<close> returns
  with. The slice \<open>line[1 : size-1]\<close> is evaluated only when the line starts with
  \<open>[\<close> and ends with \<open>]\<close>, so \<open>size\<close> is at least 2 there.
\<close>

definition parseLine :: "INI \<Rightarrow> string \<Rightarrow> loopState \<Rightarrow> bytes \<Rightarrow> error + loopState" where
  "parseLine ini kvSep' st line0 =
     (let line = TrimSpace line0; size = length line in
      if size = 0 then Inr st
      else if skipCommits ini \<and> hd line = CHR '';'' \<or> hd line = CHR ''#'' then Inr st
      else if parseSection ini \<and> hd line = CHR ''['' \<and> last line = CHR '']'' then
        (let name = drop 1 (take (size - 1) line) in
         Inr \<lparr>secs = AList.update name [] (secs st), section' = name, kvmap = []\<rparr>)
      else
        (let pos = Index line kvSep' in
         if pos < 0 then Inl (formatError line)
         else
           (let k = TrimSpace (take (nat pos) line);
                v = TrimSpace (drop (nat pos + length kvSep') line);
                v = (if trimQuotes ini then Trim v [CHR 0x27, CHR 0x22] else v)
            in Inr (kvmapAssign st k v))))"

text \<open>
  The loop: it stops at the first error and keeps the state reached so far, which is
  what the store holds when \<open>parseINI\<close> returns.
\<close>

fun parseLines :: "INI \<Rightarrow> string \<Rightarrow> loopState \<Rightarrow> bytes list \<Rightarrow> error option \<times> loopState" where
  "parseLines ini kvSep' st [] = (None, st)"
| "parseLines ini kvSep' st (line # rest) =
     (case parseLine ini kvSep' st line of
        Inl err \<Rightarrow> (Some err, st)
      | Inr st' \<Rightarrow> parseLines ini kvSep' st' rest)"

definition parseINI :: "INI \<Rightarrow> bytes \<Rightarrow> string \<Rightarrow> string \<Rightarrow> error option \<times> INI" where
  "parseINI ini data lineSep' kvSep' =
     (let ini1 = ini\<lparr>lineSep := lineSep', kvSep := kvSep'\<rparr>;
          st0 = \<lparr>secs = AList.update '''' [] (sections ini1), section' = '''', kvmap = []\<rparr>;
          (err, st) = parseLines ini1 kvSep' st0 (Split data lineSep')
      in (err, ini1\<lparr>sections := secs st\<rparr>))"

definition Parse :: "INI \<Rightarrow> bytes \<Rightarrow> string \<Rightarrow> string \<Rightarrow> error option \<times> INI" where
  "Parse ini data lineSep' kvSep' = parseINI ini data lineSep' kvSep'"

text \<open>
  \<open>ParseFrom\<close> gets what \<open>ioutil.ReadAll\<close> returned for its reader, \<open>ParseFile\<close>
  gets the file system as a function from names to what \<open>ioutil.ReadFile\<close> returns.
\<close>

definition ParseFrom :: "INI \<Rightarrow> error + bytes \<Rightarrow> string \<Rightarrow> string \<Rightarrow> error option \<times> INI" where
  "ParseFrom ini r lineSep' kvSep' =
     (case r of
        Inr data \<Rightarrow> parseINI ini data lineSep' kvSep'
      | Inl err \<Rightarrow> (Some err, ini))"

definition ParseFile :: "(string \<Rightarrow> error + bytes) \<Rightarrow> INI \<Rightarrow> string \<Rightarrow> error option \<times> INI" where
  "ParseFile ReadFile ini filename =
     (case ReadFile filename of
        Inl err \<Rightarrow> (Some err, ini)
      | Inr contents \<Rightarrow>
          parseINI (ini\<lparr>parseSection := True, skipCommits := True\<rparr>) contents
            DefaultLineSeparator DefaultKeyValueSeparator)"

section \<open>DiffINI (ini.go, lines 349-438)\<close>

definition DIFF_SECTION_ONLY_IN_A :: int where
  "DIFF_SECTION_ONLY_IN_A = 0"

definition DIFF_KEY_ONLY_IN_A :: int where
  "DIFF_KEY_ONLY_IN_A = 1"

definition DIFF_VALUES_DIFFER :: int where
  "DIFF_VALUES_DIFFER = 2"

definition DIFF_SECTION_ONLY_IN_B :: int where
  "DIFF_SECTION_ONLY_IN_B = 3"

definition DIFF_KEY_ONLY_IN_B :: int where
  "DIFF_KEY_ONLY_IN_B = 4"

record DiffResult =
  State :: int
  Section :: string
  Key :: string
  AVal :: string
  BVal :: string

text \<open>The body of the first loop, for one section of \<open>a\<close>.\<close>

definition diffSectionA :: "INI \<Rightarrow> string \<times> Kvmap \<Rightarrow> DiffResult list" where
  "diffSectionA b = (\<lambda>(asection, acontents).
     (case map_of (sections b) asection of
        None \<Rightarrow>
          [\<lparr>State = DIFF_SECTION_ONLY_IN_A, Section = asection, Key = '''', AVal = '''',
            BVal = ''''\<rparr>]
      | Some bsection \<Rightarrow>
          concat (map (\<lambda>(akey, aval).
            (case map_of bsection akey of
               None \<Rightarrow>
                 [\<lparr>State = DIFF_KEY_ONLY_IN_A, Section = asection, Key = akey, AVal = aval,
                   BVal = ''''\<rparr>]
             | Some bval \<Rightarrow>
                 if aval \<noteq> bval then
                   [\<lparr>State = DIFF_VALUES_DIFFER, Section = asection, Key = akey, AVal = aval,
                     BVal = bval\<rparr>]
                 else [])) acontents)))"

text \<open>The body of the second loop, for one section of \<open>b\<close>.\<close>

definition diffSectionB :: "INI \<Rightarrow> string \<times> Kvmap \<Rightarrow> DiffResult list" where
  "diffSectionB a = (\<lambda>(bsection, bcontents).
     (case map_of (sections a) bsection of
        None \<Rightarrow>
          [\<lparr>State = DIFF_SECTION_ONLY_IN_B, Section = bsection, Key = '''', AVal = '''',
            BVal = ''''\<rparr>]
      | Some asection \<Rightarrow>
          concat (map (\<lambda>(bkey, bval).
            (case map_of asection bkey of
               None \<Rightarrow>
                 [\<lparr>State = DIFF_KEY_ONLY_IN_B, Section = bsection, Key = bkey, AVal = '''',
                   BVal = bval\<rparr>]
             | Some aval \<Rightarrow> [])) bcontents)))"

definition DiffINI :: "INI \<Rightarrow> INI \<Rightarrow> DiffResult list" where
  "DiffINI a b =
     concat (map (diffSectionA b) (sections a)) @ concat (map (diffSectionB a) (sections b))"

section \<open>Notions used in the statements\<close>

text \<open>
  The tests the loop body makes on a trimmed, non-empty line, and the key and the value
  it takes from a line that holds the separator.
\<close>

definition isComment :: "INI \<Rightarrow> bytes \<Rightarrow> bool" where
  "isComment ini line = (skipCommits ini \<and> hd line = CHR '';'' \<or> hd line = CHR ''#'')"

definition isHeader :: "INI \<Rightarrow> bytes \<Rightarrow> bool" where
  "isHeader ini line = (parseSection ini \<and> hd line = CHR ''['' \<and> last line = CHR '']'')"

definition pairKey :: "string \<Rightarrow> bytes \<Rightarrow> string" where
  "pairKey ks line = TrimSpace (take (nat (Index line ks)) line)"

definition pairValue :: "INI \<Rightarrow> string \<Rightarrow> bytes \<Rightarrow> string" where
  "pairValue ini ks line =
     (let v = TrimSpace (drop (nat (Index line ks) + length ks) line)
      in if trimQuotes ini then Trim v [CHR 0x27, CHR 0x22] else v)"

text \<open>The content of a store as a map from section names to maps from keys to values.\<close>

definition storeMap :: "INI \<Rightarrow> string \<Rightarrow> (string \<Rightarrow> string option) option" where
  "storeMap ini n = map_option map_of (map_of (sections ini) n)"

text \<open>
  The stores a program can build with the package: it starts from \<open>New\<close> and calls the
  methods. \<open>Parse\<close>, \<open>ParseFrom\<close> and \<open>ParseFile\<close> change the store through
  \<open>parseINI\<close> only, \<open>ParseFile\<close> after setting two flags.
\<close>

inductive reachable :: "INI \<Rightarrow> bool" where
  reachable_New: "reachable New"
| reachable_Reset: "reachable ini \<Longrightarrow> reachable (Reset ini)"
| reachable_SetSkipCommits: "reachable ini \<Longrightarrow> reachable (SetSkipCommits ini b)"
| reachable_SetParseSection: "reachable ini \<Longrightarrow> reachable (SetParseSection ini b)"
| reachable_SetTrimQuotes: "reachable ini \<Longrightarrow> reachable (SetTrimQuotes ini b)"
| reachable_SectionSet: "reachable ini \<Longrightarrow> reachable (SectionSet ini s k v)"
| reachable_Delete: "reachable ini \<Longrightarrow> reachable (Delete ini s k)"
| reachable_parseINI: "reachable ini \<Longrightarrow> reachable (snd (parseINI ini data ls ks))"

text \<open>Exchanging the roles of \<open>a\<close> and \<open>b\<close> in a record.\<close>

definition swapState :: "int \<Rightarrow> int" where
  "swapState s =
     (if s = DIFF_SECTION_ONLY_IN_A then DIFF_SECTION_ONLY_IN_B
      else if s = DIFF_SECTION_ONLY_IN_B then DIFF_SECTION_ONLY_IN_A
      else if s = DIFF_KEY_ONLY_IN_A then DIFF_KEY_ONLY_IN_B
      else if s = DIFF_KEY_ONLY_IN_B then DIFF_KEY_ONLY_IN_A
      else s)"

definition swapAB :: "DiffResult \<Rightarrow> DiffResult" where
  "swapAB r = \<lparr>State = swapState (State r), Section = Section r, Key = Key r,
                AVal = BVal r, BVal = AVal r\<rparr>"

text \<open>
  The value a store holds under a key of a section, if it holds one: what \<open>SectionGet\<close>
  finds.
\<close>

definition stored :: "INI \<Rightarrow> string \<Rightarrow> string \<Rightarrow> string option" where
  "stored ini n k = (case map_of (sections ini) n of None \<Rightarrow> None | Some kv \<Rightarrow> map_of kv k)"

text \<open>
  A line \<open>l\<close> is terminated by the separator \<open>ls\<close> when the first instance of \<open>ls\<close> in
  the written text \<open>l @ ls\<close> is the one written after \<open>l\<close>: \<open>l\<close> holds no instance
  of \<open>ls\<close>, and no instance starts in \<open>l\<close> and ends in the separator behind it.
\<close>

definition terminated :: "string \<Rightarrow> bytes \<Rightarrow> bool" where
  "terminated ls l = (Index (l @ ls) ls = int (length l))"

text \<open>The lines \<open>Write\<close> writes, without their separators: a pair and a section header.\<close>

definition pairLine :: "INI \<Rightarrow> string \<times> string \<Rightarrow> bytes" where
  "pairLine ini = (\<lambda>(k, v). k @ kvSep ini @ v)"

definition headerLine :: "string \<Rightarrow> bytes" where
  "headerLine n = ''['' @ n @ '']''"

definition writtenLines :: "INI \<Rightarrow> bytes list" where
  "writtenLines ini =
     (case GetKvmap ini DefaultSection of Some kv \<Rightarrow> map (pairLine ini) kv | None \<Rightarrow> [])
     @ concat (map (\<lambda>(n, kv).
                 if n = DefaultSection then [] else headerLine n # map (pairLine ini) kv)
               (sections ini))"

text \<open>
  What makes the parser of the store \<open>P\<close> read a pair of the store \<open>S\<close> back from the
  line \<open>Write\<close> writes for it: the line, the key and the value have no white space at
  their ends; the line is not taken for a comment or for a section header; the first
  instance of the key/value separator in the line is the one written after the key;
  the value does not lose quotes when \<open>P\<close> trims them; and the line is terminated by
  the line separator.
\<close>

definition pairReadable :: "INI \<Rightarrow> INI \<Rightarrow> string \<times> string \<Rightarrow> bool" where
  "pairReadable P S = (\<lambda>(k, v).
     (let l = k @ kvSep S @ v in
      TrimSpace l = l \<and> TrimSpace k = k \<and> TrimSpace v = v \<and>
      \<not> isComment P l \<and> \<not> (hd l = CHR ''['' \<and> last l = CHR '']'') \<and>
      Index l (kvSep S) = int (length k) \<and>
      (trimQuotes P \<longrightarrow> Trim v [CHR 0x27, CHR 0x22] = v) \<and>
      terminated (lineSep S) l))"

text \<open>
  The stores \<open>S\<close> that come back from \<open>Write\<close> followed by a parse into \<open>P\<close>: both
  separators of \<open>S\<close> are non-empty, \<open>S\<close> is well formed and holds the default section,
  every header line is terminated by the line separator, and every pair is readable.
\<close>

definition roundTrips :: "INI \<Rightarrow> INI \<Rightarrow> bool" where
  "roundTrips P S =
     (lineSep S \<noteq> [] \<and> kvSep S \<noteq> [] \<and> wfSections (sections S) \<and>
      GetKvmap S DefaultSection \<noteq> None \<and>
      list_all (\<lambda>(n, kv).
         (n \<noteq> DefaultSection \<longrightarrow> terminated (lineSep S) (headerLine n)) \<and>
         list_all (pairReadable P S) kv) (sections S))"

text \<open>
  Two loop states with the same content: the same maps (whatever the order of their
  entries) and the same current section.
\<close>

definition sameState :: "loopState \<Rightarrow> loopState \<Rightarrow> bool" where
  "sameState s1 s2 =
     ((\<forall>n. map_option map_of (map_of (secs s1) n) = map_option map_of (map_of (secs s2) n)) \<and>
      section' s1 = section' s2 \<and> map_of (kvmap s1) = map_of (kvmap s2))"

definition sameFlags :: "INI \<Rightarrow> INI \<Rightarrow> bool" where
  "sameFlags a b =
     (parseSection a = parseSection b \<and> skipCommits a = skipCommits b \<and>
      trimQuotes a = trimQuotes b)"

text \<open>
  The calls of the package that change a store, and the store after a call and after a
  sequence of calls (\<open>fold perform\<close>). The other setters of the package (\<open>Set\<close>,
  \<open>SectionSetInt\<close>, \<open>SectionSetBool\<close> and the like) are calls of \<open>SectionSet\<close>.
  \<open>CallParseFrom\<close> holds what reading the reader gives, \<open>CallParseFile\<close> the file
  system.
\<close>

datatype call =
    CallReset
  | CallSetSkipCommits bool
  | CallSetParseSection bool
  | CallSetTrimQuotes bool
  | CallSectionSet string string string
  | CallDelete string string
  | CallParse bytes string string
  | CallParseFrom "error + bytes" string string
  | CallParseFile "string \<Rightarrow> error + bytes" string

fun perform :: "call \<Rightarrow> INI \<Rightarrow> INI" where
  "perform CallReset ini = Reset ini"
| "perform (CallSetSkipCommits b) ini = SetSkipCommits ini b"
| "perform (CallSetParseSection b) ini = SetParseSection ini b"
| "perform (CallSetTrimQuotes b) ini = SetTrimQuotes ini b"
| "perform (CallSectionSet s k v) ini = SectionSet ini s k v"
| "perform (CallDelete s k) ini = Delete ini s k"
| "perform (CallParse data ls ks) ini = snd (Parse ini data ls ks)"
| "perform (CallParseFrom r ls ks) ini = snd (ParseFrom ini r ls ks)"
| "perform (CallParseFile ReadFile filename) ini = snd (ParseFile ReadFile ini filename)"

fun isReset :: "call \<Rightarrow> bool" where
  "isReset CallReset = True"
| "isReset c = False"

text \<open>The two calls that assign \<open>skipCommits\<close> or \<open>parseSection\<close> a value of the caller's.\<close>

fun setsFlag :: "call \<Rightarrow> bool" where
  "setsFlag (CallSetSkipCommits b) = True"
| "setsFlag (CallSetParseSection b) = True"
| "setsFlag c = False"

section \<open>Properties of the getters\<close>

lemma SectionGet_Set_New: "SectionGet (Set New k v) '''' k = (v, True)"
  by (simp add: SectionGet_def Set_def SectionSet_def New_def DefaultSection_def)

lemma SectionGet_New: "SectionGet New sec k = ('''', False)"
  by (simp add: SectionGet_def New_def)

text \<open>
  What the integer and the float getter return, case by case: the converted value for a
  stored string that converts, \<open>(0, true)\<close> for one that does not, \<open>(0, false)\<close> for
  an absent key.
\<close>

lemma SectionGetInt_cases:
  "SectionGet ini sec key = (v, True) \<Longrightarrow> Atoi v = Inr n \<Longrightarrow> SectionGetInt ini sec key = (n, True)"
  "SectionGet ini sec key = (v, True) \<Longrightarrow> Atoi v = Inl err \<Longrightarrow>
     SectionGetInt ini sec key = (0, True)"
  "snd (SectionGet ini sec key) = False \<Longrightarrow> SectionGetInt ini sec key = (0, False)"
  by (cases "SectionGet ini sec key"; simp add: SectionGetInt_def)+

lemma SectionGetFloat_cases:
  "SectionGet ini sec key = (v, True) \<Longrightarrow> ParseFloat v = Inr x \<Longrightarrow>
     SectionGetFloat ParseFloat ini sec key = (x, True)"
  "SectionGet ini sec key = (v, True) \<Longrightarrow> ParseFloat v = Inl err \<Longrightarrow>
     SectionGetFloat ParseFloat ini sec key = (0, True)"
  "snd (SectionGet ini sec key) = False \<Longrightarrow> SectionGetFloat ParseFloat ini sec key = (0, False)"
  by (cases "SectionGet ini sec key"; simp add: SectionGetFloat_def)+

text \<open>
  Claim C1. The integer and float getters are claimed to return the zero value together
  with found = false both when the key is absent and when the stored string does not
  convert. The code returns \<open>(0, ok)\<close> on that path, where \<open>ok\<close> is the result of the
  lookup: for the stored string \<open>abc\<close> the integer getter (and the float getter, whatever
  parser rejects the string) returns \<open>(0, true)\<close>, not \<open>(0, false)\<close>. The other two
  parts of the claim hold: \<open>42\<close> yields \<open>(42, true)\<close> and an absent key \<open>(0, false)\<close>.
\<close>

theorem SectionGetInt_conversion_failure:
  "SectionGetInt (Set New ''k'' ''abc'') '''' ''k'' = (0, True) \<and>
   GetInt (Set New ''k'' ''abc'') ''k'' = (0, True) \<and>
   SectionGetFloat (\<lambda>s. Inl (NumError s)) (Set New ''k'' ''abc'') '''' ''k'' = (0, True) \<and>
   SectionGetInt (Set New ''k'' ''42'') '''' ''k'' = (42, True) \<and>
   SectionGetInt New '''' ''k'' = (0, False)"
  by (simp add: SectionGetInt_def GetInt_def SectionGetFloat_def SectionGet_Set_New
      SectionGet_New DefaultSection_def Atoi_def isDigit_def inRange_def byte_def)

text \<open>
  Claim C9. The boolean getters: a stored string that is one of the twelve truthy tokens
  yields \<open>(true, true)\<close>, one of the twelve falsy tokens \<open>(false, true)\<close>, any other
  stored string \<open>(false, false)\<close>, and so does an absent key. \<open>GetBool\<close> is
  \<open>SectionGetBool\<close> on the default section. (\<open>SectionGet\<close> returning \<open>(v, true)\<close>
  says that \<open>v\<close> is the stored string; its second component is false when the section
  or the key is absent.)
\<close>

theorem SectionGetBool_tokens:
  "(SectionGet ini sec key = (v, True) \<and>
      v \<in> {''1'', ''t'', ''T'', ''true'', ''TRUE'', ''True'',
             ''on'', ''ON'', ''On'', ''yes'', ''YES'', ''Yes''}
      \<longrightarrow> SectionGetBool ini sec key = (True, True)) \<and>
   (SectionGet ini sec key = (v, True) \<and>
      v \<in> {''0'', ''f'', ''F'', ''false'', ''FALSE'', ''False'',
             ''off'', ''OFF'', ''Off'', ''no'', ''NO'', ''No''}
      \<longrightarrow> SectionGetBool ini sec key = (False, True)) \<and>
   (SectionGet ini sec key = (v, True) \<and>
      v \<notin> {''1'', ''t'', ''T'', ''true'', ''TRUE'', ''True'',
             ''on'', ''ON'', ''On'', ''yes'', ''YES'', ''Yes'',
             ''0'', ''f'', ''F'', ''false'', ''FALSE'', ''False'',
             ''off'', ''OFF'', ''Off'', ''no'', ''NO'', ''No''}
      \<longrightarrow> SectionGetBool ini sec key = (False, False)) \<and>
   (snd (SectionGet ini sec key) = False \<longrightarrow> SectionGetBool ini sec key = (False, False)) \<and>
   GetBool ini key = SectionGetBool ini '''' key"
proof -
  have t: "SectionGet ini sec key = (v, True) \<Longrightarrow> v \<in> set truthy
      \<Longrightarrow> SectionGetBool ini sec key = (True, True)"
    by (simp add: SectionGetBool_def)
  have f: "SectionGet ini sec key = (v, True) \<Longrightarrow> v \<in> set falsy
      \<Longrightarrow> SectionGetBool ini sec key = (False, True)"
    by (auto simp: SectionGetBool_def truthy_def falsy_def)
  have o: "SectionGet ini sec key = (v, True) \<Longrightarrow> v \<notin> set truthy \<Longrightarrow> v \<notin> set falsy
      \<Longrightarrow> SectionGetBool ini sec key = (False, False)"
    by (simp add: SectionGetBool_def)
  have a: "snd (SectionGet ini sec key) = False \<Longrightarrow> SectionGetBool ini sec key = (False, False)"
    by (cases "SectionGet ini sec key") (simp add: SectionGetBool_def)
  have g: "GetBool ini key = SectionGetBool ini '''' key"
    by (simp add: GetBool_def DefaultSection_def)
  show ?thesis
    using t f o a g by (simp add: truthy_def falsy_def)
qed

theorem SectionGetBool_tokens_witness:
  "SectionGetBool (Set New ''k'' ''YES'') '''' ''k'' = (True, True) \<and>
   SectionGetBool (Set New ''k'' ''Off'') '''' ''k'' = (False, True) \<and>
   SectionGetBool (Set New ''k'' ''maybe'') '''' ''k'' = (False, False) \<and>
   SectionGetBool New '''' ''k'' = (False, False)"
  using SectionGetBool_tokens [of "Set New ''k'' ''YES''" "''''" "''k''" "''YES''"]
    SectionGetBool_tokens [of "Set New ''k'' ''Off''" "''''" "''k''" "''Off''"]
    SectionGetBool_tokens [of "Set New ''k'' ''maybe''" "''''" "''k''" "''maybe''"]
    SectionGetBool_tokens [of New "''''" "''k''"]
  by (simp add: SectionGet_Set_New SectionGet_New)

section \<open>The loop of parseINI, line by line\<close>

lemma parseLine_blank: "TrimSpace l = [] \<Longrightarrow> parseLine ini ks st l = Inr st"
  by (simp add: parseLine_def)

lemma parseLine_comment:
  "TrimSpace l = t \<Longrightarrow> t \<noteq> [] \<Longrightarrow> isComment ini t \<Longrightarrow> parseLine ini ks st l = Inr st"
  by (auto simp: parseLine_def isComment_def)

lemma parseLine_header:
  "TrimSpace l = t \<Longrightarrow> t \<noteq> [] \<Longrightarrow> \<not> isComment ini t \<Longrightarrow> isHeader ini t \<Longrightarrow>
   parseLine ini ks st l =
     Inr \<lparr>secs = AList.update (drop 1 (take (length t - 1) t)) [] (secs st),
          section' = drop 1 (take (length t - 1) t), kvmap = []\<rparr>"
  by (auto simp: parseLine_def Let_def isComment_def isHeader_def)

lemma parseLine_error:
  "TrimSpace l = t \<Longrightarrow> t \<noteq> [] \<Longrightarrow> \<not> isComment ini t \<Longrightarrow> \<not> isHeader ini t \<Longrightarrow>
   Index t ks < 0 \<Longrightarrow> parseLine ini ks st l = Inl (formatError t)"
  by (simp add: parseLine_def Let_def isComment_def isHeader_def)

lemma parseLine_pair:
  "TrimSpace l = t \<Longrightarrow> t \<noteq> [] \<Longrightarrow> \<not> isComment ini t \<Longrightarrow> \<not> isHeader ini t \<Longrightarrow>
   0 \<le> Index t ks \<Longrightarrow>
   parseLine ini ks st l = Inr (kvmapAssign st (pairKey ks t) (pairValue ini ks t))"
  by (auto simp: parseLine_def Let_def isComment_def isHeader_def pairKey_def pairValue_def)

lemma parseLines_append:
  "parseLines ini ks st (xs @ ys) =
     (case parseLines ini ks st xs of
        (None, st') \<Rightarrow> parseLines ini ks st' ys
      | (Some err, st') \<Rightarrow> (Some err, st'))"
  by (induction xs arbitrary: st) (auto split: sum.splits)

section \<open>Comment lines\<close>

text \<open>
  Claim C2. For an input line whose trimmed text is not empty (\<open>c\<close> is its first
  character): if \<open>c\<close> is \<open>#\<close> the loop goes on with the next line from the same state,
  whatever the skip-comments flag says; if \<open>c\<close> is \<open>;\<close> it does so when the flag is
  set; when the flag is not set, a \<open>;\<close> line without the key/value separator makes the
  parse fail with the format error for that line (the state is the one reached before
  it), and a \<open>;\<close> line with the separator is stored as a pair like any other line.
\<close>

theorem comment_lines:
  assumes "TrimSpace l = c # cs"
  shows "(c = CHR ''#'' \<longrightarrow> parseLines ini ks st (l # rest) = parseLines ini ks st rest) \<and>
    (c = CHR '';'' \<and> skipCommits ini \<longrightarrow>
       parseLines ini ks st (l # rest) = parseLines ini ks st rest) \<and>
    (c = CHR '';'' \<and> \<not> skipCommits ini \<and> Index (c # cs) ks < 0 \<longrightarrow>
       parseLines ini ks st (l # rest) = (Some (formatError (c # cs)), st)) \<and>
    (c = CHR '';'' \<and> \<not> skipCommits ini \<and> 0 \<le> Index (c # cs) ks \<longrightarrow>
       parseLines ini ks st (l # rest) =
       parseLines ini ks (kvmapAssign st (pairKey ks (c # cs)) (pairValue ini ks (c # cs))) rest)"
proof -
  have hash: "c = CHR ''#'' \<Longrightarrow> parseLine ini ks st l = Inr st"
    using assms by (simp add: parseLine_comment isComment_def)
  have semi: "c = CHR '';'' \<Longrightarrow> skipCommits ini \<Longrightarrow> parseLine ini ks st l = Inr st"
    using assms by (simp add: parseLine_comment isComment_def)
  have err: "c = CHR '';'' \<Longrightarrow> \<not> skipCommits ini \<Longrightarrow> Index (c # cs) ks < 0 \<Longrightarrow>
      parseLine ini ks st l = Inl (formatError (c # cs))"
    using assms by (simp add: parseLine_error isComment_def isHeader_def)
  have pair: "c = CHR '';'' \<Longrightarrow> \<not> skipCommits ini \<Longrightarrow> 0 \<le> Index (c # cs) ks \<Longrightarrow>
      parseLine ini ks st l =
      Inr (kvmapAssign st (pairKey ks (c # cs)) (pairValue ini ks (c # cs)))"
    using assms by (simp add: parseLine_pair isComment_def isHeader_def)
  show ?thesis
    using hash semi err pair by (auto simp del: Index.simps)
qed

theorem comment_lines_witness:
  "parseLines New ''='' \<lparr>secs = [('''', [])], section' = '''', kvmap = []\<rparr> [''#comment'', ''a=1'']
     = parseLines New ''='' \<lparr>secs = [('''', [])], section' = '''', kvmap = []\<rparr> [''a=1''] \<and>
   parseLines (SetSkipCommits New True) ''='' \<lparr>secs = [('''', [])], section' = '''', kvmap = []\<rparr>
       [''#comment'', ''a=1'']
     = parseLines (SetSkipCommits New True) ''='' \<lparr>secs = [('''', [])], section' = '''', kvmap = []\<rparr>
       [''a=1''] \<and>
   parseLines (SetSkipCommits New True) ''='' \<lparr>secs = [('''', [])], section' = '''', kvmap = []\<rparr>
       ['' ;comment'', ''a=1'']
     = parseLines (SetSkipCommits New True) ''='' \<lparr>secs = [('''', [])], section' = '''', kvmap = []\<rparr>
       [''a=1''] \<and>
   parseLines New ''='' \<lparr>secs = [('''', [])], section' = '''', kvmap = []\<rparr> ['';comment'', ''a=1'']
     = (Some (ErrorString ''Came accross an error : ;comment is NOT a valid key/value pair''),
        \<lparr>secs = [('''', [])], section' = '''', kvmap = []\<rparr>) \<and>
   parseLines New ''='' \<lparr>secs = [('''', [])], section' = '''', kvmap = []\<rparr> ['';c=1'']
     = (None, \<lparr>secs = [('''', [('';c'', ''1'')])], section' = '''', kvmap = [('';c'', ''1'')]\<rparr>)"
proof -
  let ?st = "\<lparr>secs = [('''', [])], section' = '''', kvmap = []\<rparr>"
  have h1: "TrimSpace ''#comment'' = CHR ''#'' # ''comment''" by code_simp
  have h2: "TrimSpace '' ;comment'' = CHR '';'' # ''comment''" by code_simp
  have h3: "TrimSpace '';comment'' = CHR '';'' # ''comment''" by code_simp
  have h4: "TrimSpace '';c=1'' = CHR '';'' # ''c=1''" by code_simp
  have i3: "Index '';comment'' ''='' < 0" by simp
  have i4: "0 \<le> Index '';c=1'' ''=''" by simp
  have k: "pairKey ''='' '';c=1'' = '';c''" by code_simp
  have v: "pairValue New ''='' '';c=1'' = ''1''" by code_simp
  have s: "skipCommits (SetSkipCommits New True)" "\<not> skipCommits New"
    by (simp_all add: SetSkipCommits_def New_def)
  show ?thesis
    using comment_lines [OF h1, where ini = New and ks = "''=''" and rest = "[''a=1'']"
        and st = ?st]
      comment_lines [OF h1, where ini = "SetSkipCommits New True" and ks = "''=''"
        and rest = "[''a=1'']" and st = ?st]
      comment_lines [OF h2, where ini = "SetSkipCommits New True" and ks = "''=''"
        and rest = "[''a=1'']" and st = ?st]
      comment_lines [OF h3, where ini = New and ks = "''=''" and rest = "[''a=1'']"
        and st = ?st]
      comment_lines [OF h4, where ini = New and ks = "''=''" and rest = "[]" and st = ?st]
    by (simp add: k v s i3 i4 formatError_def kvmapAssign_def Let_def
        del: Index.simps parseLines.simps(2))
qed

text \<open>The two inputs of the specification, through \<open>Parse\<close> with the default separators.\<close>

lemma Parse_comment_examples:
  "Parse New (''#comment'' @ [CHR 0x0A] @ ''a=1'') [CHR 0x0A] ''=''
     = (None, New\<lparr>sections := [('''', [(''a'', ''1'')])]\<rparr>)"
  "Parse (SetSkipCommits New True) (''#comment'' @ [CHR 0x0A] @ ''a=1'') [CHR 0x0A] ''=''
     = (None, (SetSkipCommits New True)\<lparr>sections := [('''', [(''a'', ''1'')])]\<rparr>)"
  "Parse (SetSkipCommits New True) ('';comment'' @ [CHR 0x0A] @ ''a=1'') [CHR 0x0A] ''=''
     = (None, (SetSkipCommits New True)\<lparr>sections := [('''', [(''a'', ''1'')])]\<rparr>)"
  "Parse New ('';comment'' @ [CHR 0x0A] @ ''a=1'') [CHR 0x0A] ''=''
     = (Some (ErrorString ''Came accross an error : ;comment is NOT a valid key/value pair''),
        New\<lparr>sections := [('''', [])]\<rparr>)"
  by code_simp+

section \<open>Format errors\<close>

lemma isComment_seps [simp]: "isComment (ini\<lparr>lineSep := ls, kvSep := ks\<rparr>) t = isComment ini t"
  by (simp add: isComment_def)

lemma isHeader_seps [simp]: "isHeader (ini\<lparr>lineSep := ls, kvSep := ks\<rparr>) t = isHeader ini t"
  by (simp add: isHeader_def)

lemma parseLines_error_at:
  assumes "parseLines ini ks st0 pre = (None, st)"
    and "parseLine ini ks st l = Inl err"
  shows "parseLines ini ks st0 (pre @ l # post) = (Some err, st)"
  using assms by (simp add: parseLines_append)

text \<open>
  Claim C3. Let the input split into the lines \<open>pre\<close>, then \<open>l\<close>, then \<open>post\<close>, where
  the loop gets through \<open>pre\<close> without an error and reaches the state \<open>st\<close>, and the
  trimmed text \<open>t\<close> of \<open>l\<close> is not blank, not a comment, not a section header and
  holds no key/value separator. Then the parse returns the format error whose message
  carries \<open>t\<close>; the result does not depend on \<open>post\<close> (no later line is processed);
  and the store is left with the section map of \<open>st\<close>, that is, with every section and
  pair that the lines before \<open>l\<close> put there.
\<close>

theorem format_error_aborts:
  assumes "Split data ls = pre @ l # post"
    and "parseLines (ini\<lparr>lineSep := ls, kvSep := ks\<rparr>) ks
           \<lparr>secs = AList.update '''' [] (sections ini), section' = '''', kvmap = []\<rparr> pre
         = (None, st)"
    and "TrimSpace l = t" and "t \<noteq> []" and "\<not> isComment ini t" and "\<not> isHeader ini t"
    and "Index t ks < 0"
  shows "parseINI ini data ls ks =
    (Some (ErrorString (''Came accross an error : '' @ t @ '' is NOT a valid key/value pair'')),
     ini\<lparr>lineSep := ls, kvSep := ks, sections := secs st\<rparr>)"
proof -
  let ?ini1 = "ini\<lparr>lineSep := ls, kvSep := ks\<rparr>"
  have "parseLine ?ini1 ks st l = Inl (formatError t)"
    using assms(3-7) by (simp add: parseLine_error)
  with assms(2) have "parseLines ?ini1 ks
      \<lparr>secs = AList.update '''' [] (sections ini), section' = '''', kvmap = []\<rparr> (pre @ l # post)
    = (Some (formatError t), st)"
    by (rule parseLines_error_at)
  with assms(1) show ?thesis
    by (simp add: parseINI_def formatError_def)
qed

theorem format_error_aborts_witness:
  "parseINI (SetParseSection New True)
     (''a=1'' @ [CHR 0x0A] @ ''[s]'' @ [CHR 0x0A] @ ''b=2'' @ [CHR 0x0A]
        @ ''malformed-no-separator'' @ [CHR 0x0A] @ ''[t]'' @ [CHR 0x0A] @ ''c=3'')
     [CHR 0x0A] ''=''
   = (Some (ErrorString
        ''Came accross an error : malformed-no-separator is NOT a valid key/value pair''),
      (SetParseSection New True)
        \<lparr>sections := [('''', [(''a'', ''1'')]), (''s'', [(''b'', ''2'')])]\<rparr>)"
proof -
  let ?ini = "SetParseSection New True"
  let ?nl = "[CHR 0x0A]"
  let ?data = "''a=1'' @ ?nl @ ''[s]'' @ ?nl @ ''b=2'' @ ?nl
        @ ''malformed-no-separator'' @ ?nl @ ''[t]'' @ ?nl @ ''c=3''"
  let ?st = "\<lparr>secs = [('''', [(''a'', ''1'')]), (''s'', [(''b'', ''2'')])], section' = ''s'',
      kvmap = [(''b'', ''2'')]\<rparr>"
  have 1: "Split ?data ?nl = [''a=1'', ''[s]'', ''b=2''] @ ''malformed-no-separator'' # [''[t]'', ''c=3'']"
    by code_simp
  have 2: "parseLines (?ini\<lparr>lineSep := ?nl, kvSep := ''=''\<rparr>) ''=''
           \<lparr>secs = AList.update '''' [] (sections ?ini), section' = '''', kvmap = []\<rparr>
           [''a=1'', ''[s]'', ''b=2''] = (None, ?st)"
    by code_simp
  have 3: "TrimSpace ''malformed-no-separator'' = ''malformed-no-separator''"
    by code_simp
  have 4: "''malformed-no-separator'' \<noteq> []" by simp
  have 5: "\<not> isComment ?ini ''malformed-no-separator''" by (simp add: isComment_def)
  have 6: "\<not> isHeader ?ini ''malformed-no-separator''" by (simp add: isHeader_def)
  have 7: "Index ''malformed-no-separator'' ''='' < 0" by simp
  show ?thesis
    using format_error_aborts [OF 1 2 3 4 5 6 7]
    by (simp add: SetParseSection_def New_def DefaultLineSeparator_def
        DefaultKeyValueSeparator_def)
qed

section \<open>Section headers\<close>

text \<open>The lines the header test of the loop accepts are the lines of the form \<open>[name]\<close>.\<close>

lemma bracket_delimited:
  "(t \<noteq> [] \<and> hd t = CHR ''['' \<and> last t = CHR '']'') = (\<exists>name. t = CHR ''['' # name @ [CHR '']''])"
proof
  assume a: "t \<noteq> [] \<and> hd t = CHR ''['' \<and> last t = CHR '']''"
  then obtain u where u: "t = CHR ''['' # u" by (cases t) auto
  with a have "u \<noteq> []" by auto
  with a u have "u = butlast u @ [CHR '']'']"
    by (metis append_butlast_last_id last_ConsR)
  with u show "\<exists>name. t = CHR ''['' # name @ [CHR '']'']" by metis
next
  assume "\<exists>name. t = CHR ''['' # name @ [CHR '']'']"
  then show "t \<noteq> [] \<and> hd t = CHR ''['' \<and> last t = CHR '']''" by auto
qed

text \<open>
  Claim C7. With section parsing enabled, take a line whose trimmed text \<open>t\<close> passes
  the header test of the loop (it starts with \<open>[\<close> and ends with \<open>]\<close>), and let
  \<open>name\<close> be the slice \<open>t[1 : size-1]\<close>. Then \<open>t\<close> is \<open>[name]\<close>, and the line makes
  \<open>name\<close> the current section and installs a fresh empty mapping for it: the loop goes
  on from a state whose section map holds the empty mapping under \<open>name\<close>, whatever it
  held there before, and is unchanged at every other name.
\<close>

theorem header_installs_fresh_section:
  assumes "parseSection ini" and "TrimSpace l = t" and "t \<noteq> []"
    and "hd t = CHR ''[''" and "last t = CHR '']''"
    and "name = drop 1 (take (length t - 1) t)"
  shows "t = CHR ''['' # name @ [CHR '']''] \<and>
    parseLines ini ks st (l # rest) =
      parseLines ini ks \<lparr>secs = AList.update name [] (secs st), section' = name, kvmap = []\<rparr> rest \<and>
    map_of (AList.update name [] (secs st)) name = Some [] \<and>
    (\<forall>n. n \<noteq> name \<longrightarrow> map_of (AList.update name [] (secs st)) n = map_of (secs st) n)"
proof -
  from assms(3-5) obtain u where u: "t = CHR ''['' # u @ [CHR '']'']"
    using bracket_delimited [of t] by blast
  with assms(6) have n: "name = u" by simp
  have "\<not> isComment ini t" and "isHeader ini t"
    using assms(1,4,5) by (simp_all add: isComment_def isHeader_def)
  with assms(2,3) have "parseLine ini ks st l =
      Inr \<lparr>secs = AList.update (drop 1 (take (length t - 1) t)) [] (secs st),
          section' = drop 1 (take (length t - 1) t), kvmap = []\<rparr>"
    by (rule parseLine_header)
  with assms(6) u n show ?thesis
    by (simp add: update_conv')
qed

theorem header_installs_fresh_section_witness:
  "parseLines (SetParseSection New True) ''=''
      \<lparr>secs = [('''', []), (''s'', [(''a'', ''1'')])], section' = ''s'', kvmap = [(''a'', ''1'')]\<rparr>
      ['' [s] '', ''b=2'']
     = (None, \<lparr>secs = [('''', []), (''s'', [(''b'', ''2'')])], section' = ''s'',
          kvmap = [(''b'', ''2'')]\<rparr>)"
proof -
  let ?ini = "SetParseSection New True"
  have 1: "parseSection ?ini" by (simp add: SetParseSection_def)
  have 2: "TrimSpace '' [s] '' = ''[s]''" by code_simp
  have 3: "''[s]'' \<noteq> []" and 4: "hd ''[s]'' = CHR ''[''" and 5: "last ''[s]'' = CHR '']''"
    and 6: "''s'' = drop 1 (take (length ''[s]'' - 1) ''[s]'')"
    by simp_all
  have 7: "parseLines ?ini ''=''
      \<lparr>secs = AList.update ''s'' [] [('''', []), (''s'', [(''a'', ''1'')])], section' = ''s'',
        kvmap = []\<rparr> [''b=2'']
     = (None, \<lparr>secs = [('''', []), (''s'', [(''b'', ''2'')])], section' = ''s'',
          kvmap = [(''b'', ''2'')]\<rparr>)"
    by code_simp
  show ?thesis
    using header_installs_fresh_section [OF 1 2 3 4 5 6, where ks = "''=''" and rest = "[''b=2'']"
        and st = "\<lparr>secs = [('''', []), (''s'', [(''a'', ''1'')])], section' = ''s'',
          kvmap = [(''a'', ''1'')]\<rparr>"] 7
    by (simp del: parseLines.simps)
qed

text \<open>A second header for a section drops the pairs read under the first.\<close>

lemma Parse_duplicate_header_example:
  "Parse (SetParseSection New True)
     (''[s]'' @ [CHR 0x0A] @ ''a=1'' @ [CHR 0x0A] @ ''[s]'' @ [CHR 0x0A] @ ''b=2'') [CHR 0x0A] ''=''
   = (None, (SetParseSection New True)\<lparr>sections := [('''', []), (''s'', [(''b'', ''2'')])]\<rparr>)"
  by code_simp

section \<open>Sections persist\<close>

lemma parseLine_cases:
  obtains (blank) "TrimSpace l = []" "parseLine ini ks st l = Inr st"
  | (comment) "parseLine ini ks st l = Inr st"
  | (header) name where "parseLine ini ks st l =
      Inr \<lparr>secs = AList.update name [] (secs st), section' = name, kvmap = []\<rparr>"
  | (error) err where "parseLine ini ks st l = Inl err"
  | (pair) k v where "parseLine ini ks st l = Inr (kvmapAssign st k v)"
proof -
  let ?t = "TrimSpace l"
  consider "?t = []" | "?t \<noteq> []" "isComment ini ?t"
    | "?t \<noteq> []" "\<not> isComment ini ?t" "isHeader ini ?t"
    | "?t \<noteq> []" "\<not> isComment ini ?t" "\<not> isHeader ini ?t" "Index ?t ks < 0"
    | "?t \<noteq> []" "\<not> isComment ini ?t" "\<not> isHeader ini ?t" "0 \<le> Index ?t ks"
    by fastforce
  then show thesis
  proof cases
    case 1
    then show ?thesis using blank parseLine_blank by blast
  next
    case 2
    then show ?thesis using comment parseLine_comment [OF refl] by blast
  next
    case 3
    then show ?thesis using header parseLine_header [OF refl] by blast
  next
    case 4
    then show ?thesis using error parseLine_error [OF refl] by blast
  next
    case 5
    then show ?thesis using pair parseLine_pair [OF refl] by blast
  qed
qed

lemma parseLine_keeps_sections:
  assumes "parseLine ini ks st l = Inr st'" and "map_of (secs st) n \<noteq> None"
  shows "map_of (secs st') n \<noteq> None"
  using assms
  by (cases rule: parseLine_cases [where l = l and ini = ini and ks = ks and st = st])
     (auto simp: update_conv' kvmapAssign_def Let_def)

lemma parseLines_keeps_sections:
  "parseLines ini ks st xs = (e, st') \<Longrightarrow> map_of (secs st) n \<noteq> None
     \<Longrightarrow> map_of (secs st') n \<noteq> None"
proof (induction xs arbitrary: st)
  case Nil
  then show ?case by simp
next
  case (Cons l xs)
  show ?case
  proof (cases "parseLine ini ks st l")
    case (Inl err)
    with Cons.prems show ?thesis by simp
  next
    case (Inr st1)
    with Cons.prems(2) have "map_of (secs st1) n \<noteq> None"
      using parseLine_keeps_sections by blast
    moreover from Inr Cons.prems(1) have "parseLines ini ks st1 xs = (e, st')" by simp
    ultimately show ?thesis by (rule Cons.IH [rotated])
  qed
qed

lemma parseINI_sections:
  "\<exists>e st. parseLines (ini\<lparr>lineSep := ls, kvSep := ks\<rparr>) ks
       \<lparr>secs = AList.update '''' [] (sections ini), section' = '''', kvmap = []\<rparr> (Split data ls)
       = (e, st) \<and>
     parseINI ini data ls ks = (e, ini\<lparr>lineSep := ls, kvSep := ks, sections := secs st\<rparr>)"
  by (cases "parseLines (ini\<lparr>lineSep := ls, kvSep := ks\<rparr>) ks
       \<lparr>secs = AList.update '''' [] (sections ini), section' = '''', kvmap = []\<rparr> (Split data ls)")
     (simp add: parseINI_def)

lemma parseINI_keeps_sections:
  assumes "n = '''' \<or> GetKvmap ini n \<noteq> None"
  shows "GetKvmap (snd (parseINI ini data ls ks)) n \<noteq> None"
proof -
  obtain e st where p: "parseLines (ini\<lparr>lineSep := ls, kvSep := ks\<rparr>) ks
       \<lparr>secs = AList.update '''' [] (sections ini), section' = '''', kvmap = []\<rparr> (Split data ls)
       = (e, st)"
    and r: "parseINI ini data ls ks = (e, ini\<lparr>lineSep := ls, kvSep := ks, sections := secs st\<rparr>)"
    using parseINI_sections by blast
  have "map_of (secs \<lparr>secs = AList.update '''' [] (sections ini), section' = '''', kvmap = []\<rparr>) n
      \<noteq> None"
    using assms by (auto simp: update_conv' GetKvmap_def)
  with p have "map_of (secs st) n \<noteq> None"
    by (rule parseLines_keeps_sections)
  with r show ?thesis by (simp add: GetKvmap_def)
qed

lemma Delete_keeps_sections: "(GetKvmap (Delete ini s k) n \<noteq> None) = (GetKvmap ini n \<noteq> None)"
  by (auto simp: Delete_def GetKvmap_def update_conv' split: option.splits)

lemma Deletes_keep_sections:
  "(GetKvmap (fold (\<lambda>(s, k) i. Delete i s k) ds ini) n \<noteq> None) = (GetKvmap ini n \<noteq> None)"
proof (induction ds arbitrary: ini)
  case Nil
  then show ?case by simp
next
  case (Cons d ds)
  obtain s k where d: "d = (s, k)" by (cases d)
  have "(GetKvmap (fold (\<lambda>(s, k) i. Delete i s k) ds (Delete ini s k)) n \<noteq> None)
      = (GetKvmap (Delete ini s k) n \<noteq> None)"
    by (rule Cons.IH)
  with d Delete_keeps_sections [of ini s k n] show ?case by simp
qed

lemma perform_keeps_sections:
  assumes "\<not> isReset c" and "GetKvmap ini n \<noteq> None"
  shows "GetKvmap (perform c ini) n \<noteq> None"
proof (cases c)
  case CallReset
  with assms(1) show ?thesis by simp
next
  case (CallSetSkipCommits b)
  with assms(2) show ?thesis by (simp add: SetSkipCommits_def GetKvmap_def)
next
  case (CallSetParseSection b)
  with assms(2) show ?thesis by (simp add: SetParseSection_def GetKvmap_def)
next
  case (CallSetTrimQuotes b)
  with assms(2) show ?thesis by (simp add: SetTrimQuotes_def GetKvmap_def)
next
  case (CallSectionSet s k v)
  with assms(2) show ?thesis by (simp add: SectionSet_def GetKvmap_def update_conv')
next
  case (CallDelete s k)
  with assms(2) Delete_keeps_sections [of ini s k n] show ?thesis by simp
next
  case (CallParse data ls ks)
  with assms(2) show ?thesis by (simp add: Parse_def parseINI_keeps_sections)
next
  case (CallParseFrom r ls ks)
  with assms(2) show ?thesis
    by (cases r) (simp_all add: ParseFrom_def parseINI_keeps_sections)
next
  case (CallParseFile ReadFile filename)
  have "GetKvmap (ini\<lparr>parseSection := True, skipCommits := True\<rparr>) n \<noteq> None"
    using assms(2) by (simp add: GetKvmap_def)
  with CallParseFile assms(2) show ?thesis
    by (cases "ReadFile filename") (simp_all add: ParseFile_def parseINI_keeps_sections)
qed

lemma performs_keep_sections:
  "\<not> list_ex isReset cs \<Longrightarrow> GetKvmap ini n \<noteq> None \<Longrightarrow> GetKvmap (fold perform cs ini) n \<noteq> None"
proof (induction cs arbitrary: ini)
  case Nil
  then show ?case by simp
next
  case (Cons c cs)
  from Cons.prems have "GetKvmap (perform c ini) n \<noteq> None"
    by (simp add: perform_keeps_sections)
  with Cons.prems(1) Cons.IH [of "perform c ini"] show ?case by simp
qed

text \<open>
  Claim C8. A section is present when the map lookup \<open>GetKvmap\<close> finds it. The
  parser runs in every call of \<open>Parse\<close>, and in a call of \<open>ParseFrom\<close> or
  \<open>ParseFile\<close> whose read succeeds. After such a call the default section is present,
  whether the parse returned an error or not, and it is still present after any
  further calls other than \<open>Reset\<close>. A call of \<open>ParseFrom\<close> or \<open>ParseFile\<close> whose
  read fails returns the read error and leaves the store as it was, so it creates no
  default section. A section that is present stays present through a parse (also one
  created by a header earlier in the same pass), through \<open>SectionSet\<close>, which creates
  its own section, through \<open>Delete\<close> and any sequence of \<open>Delete\<close> calls, and through
  any sequence of calls without \<open>Reset\<close>; \<open>Delete\<close> neither removes nor creates a
  section. After \<open>Reset\<close> no section is present.
\<close>

theorem sections_persist:
  "GetKvmap (snd (Parse ini data ls ks)) '''' \<noteq> None \<and>
   GetKvmap (snd (ParseFrom ini (Inr data) ls ks)) '''' \<noteq> None \<and>
   (ReadFile filename = Inr data \<longrightarrow>
      GetKvmap (snd (ParseFile ReadFile ini filename)) '''' \<noteq> None) \<and>
   (GetKvmap ini n \<noteq> None \<longrightarrow> GetKvmap (snd (Parse ini data ls ks)) n \<noteq> None) \<and>
   (parseLines ini ks st xs = (e, st') \<and> map_of (secs st) n \<noteq> None
      \<longrightarrow> map_of (secs st') n \<noteq> None) \<and>
   GetKvmap (SectionSet ini s k v) s \<noteq> None \<and>
   (GetKvmap ini n \<noteq> None \<longrightarrow> GetKvmap (SectionSet ini s k v) n \<noteq> None) \<and>
   (GetKvmap (Delete ini s k) n \<noteq> None) = (GetKvmap ini n \<noteq> None) \<and>
   (GetKvmap (fold (\<lambda>(s, k) i. Delete i s k) ds ini) n \<noteq> None) = (GetKvmap ini n \<noteq> None) \<and>
   GetKvmap (Reset ini) n = None \<and>
   ParseFrom ini (Inl err) ls ks = (Some err, ini) \<and>
   (ReadFile filename = Inl err \<longrightarrow> ParseFile ReadFile ini filename = (Some err, ini)) \<and>
   (\<not> list_ex isReset cs \<and> GetKvmap ini n \<noteq> None
      \<longrightarrow> GetKvmap (fold perform cs ini) n \<noteq> None) \<and>
   (\<not> list_ex isReset cs \<longrightarrow>
      GetKvmap (fold perform cs (snd (Parse ini data ls ks))) '''' \<noteq> None \<and>
      GetKvmap (fold perform cs (snd (ParseFrom ini (Inr data) ls ks))) '''' \<noteq> None) \<and>
   (\<not> list_ex isReset cs \<and> ReadFile filename = Inr data \<longrightarrow>
      GetKvmap (fold perform cs (snd (ParseFile ReadFile ini filename))) '''' \<noteq> None)"
proof -
  have 1: "GetKvmap (snd (Parse ini data ls ks)) '''' \<noteq> None"
    by (simp add: Parse_def parseINI_keeps_sections)
  have 2: "GetKvmap (snd (ParseFrom ini (Inr data) ls ks)) '''' \<noteq> None"
    by (simp add: ParseFrom_def parseINI_keeps_sections)
  have 3: "ReadFile filename = Inr data \<Longrightarrow>
      GetKvmap (snd (ParseFile ReadFile ini filename)) '''' \<noteq> None"
    by (simp add: ParseFile_def parseINI_keeps_sections)
  have 4: "GetKvmap ini n \<noteq> None \<Longrightarrow> GetKvmap (snd (Parse ini data ls ks)) n \<noteq> None"
    by (simp add: Parse_def parseINI_keeps_sections)
  have 5: "parseLines ini ks st xs = (e, st') \<Longrightarrow> map_of (secs st) n \<noteq> None
      \<Longrightarrow> map_of (secs st') n \<noteq> None"
    by (rule parseLines_keeps_sections)
  have 6: "GetKvmap (SectionSet ini s k v) s \<noteq> None"
    by (simp add: SectionSet_def GetKvmap_def update_conv')
  have 7: "GetKvmap ini n \<noteq> None \<Longrightarrow> GetKvmap (SectionSet ini s k v) n \<noteq> None"
    by (simp add: SectionSet_def GetKvmap_def update_conv')
  have 8: "GetKvmap (Reset ini) n = None"
    by (simp add: Reset_def GetKvmap_def)
  have 9: "ParseFrom ini (Inl err) ls ks = (Some err, ini)"
    by (simp add: ParseFrom_def)
  have 10: "ReadFile filename = Inl err \<Longrightarrow> ParseFile ReadFile ini filename = (Some err, ini)"
    by (simp add: ParseFile_def)
  have 11: "\<not> list_ex isReset cs \<Longrightarrow> GetKvmap ini n \<noteq> None
      \<Longrightarrow> GetKvmap (fold perform cs ini) n \<noteq> None"
    by (rule performs_keep_sections)
  have 12: "\<not> list_ex isReset cs \<Longrightarrow>
      GetKvmap (fold perform cs (snd (Parse ini data ls ks))) '''' \<noteq> None"
    using 1 by (rule performs_keep_sections [rotated])
  have 13: "\<not> list_ex isReset cs \<Longrightarrow>
      GetKvmap (fold perform cs (snd (ParseFrom ini (Inr data) ls ks))) '''' \<noteq> None"
    using 2 by (rule performs_keep_sections [rotated])
  have 14: "\<not> list_ex isReset cs \<Longrightarrow> ReadFile filename = Inr data \<Longrightarrow>
      GetKvmap (fold perform cs (snd (ParseFile ReadFile ini filename))) '''' \<noteq> None"
    using 3 by (simp add: performs_keep_sections)
  show ?thesis
    using 1 2 3 4 5 6 7 8 9 10 11 12 13 14
      Delete_keeps_sections [of ini s k n] Deletes_keep_sections [of ds ini n]
    by simp
qed

theorem sections_persist_witness:
  "GetKvmap (snd (ParseFile (\<lambda>f. Inr ''junk'') New ''f'')) '''' \<noteq> None \<and>
   GetKvmap (snd (Parse (SectionSet New ''s'' ''a'' ''1'') ''b=2'' [CHR 0x0A] ''='')) ''s''
     \<noteq> None \<and>
   GetKvmap (SectionSet (Set New ''a'' ''1'') ''s'' ''b'' ''2'') '''' \<noteq> None \<and>
   GetKvmap (Delete (Set New ''a'' ''1'') '''' ''a'') '''' \<noteq> None \<and>
   map_of (secs (snd (parseLines (SetParseSection New True) ''=''
     \<lparr>secs = [('''', []), (''s'', [])], section' = ''s'', kvmap = []\<rparr> [''[t]'', ''junk'']))) ''s''
     \<noteq> None \<and>
   ParseFile (\<lambda>f. Inl (IOError ''open f: no such file or directory'')) (Set New ''a'' ''1'') ''f''
     = (Some (IOError ''open f: no such file or directory''), Set New ''a'' ''1'') \<and>
   GetKvmap (fold perform
       [CallDelete '''' ''a'', CallSectionSet ''s'' ''k'' ''v'',
        CallParseFile (\<lambda>f. Inl (IOError ''open f: no such file or directory'')) ''f'',
        CallParse ''junk'' [CHR 0x0A] ''='', CallDelete ''s'' ''k'']
       (snd (Parse New ''a=1'' [CHR 0x0A] ''=''))) '''' \<noteq> None \<and>
   GetKvmap (fold perform
       [CallDelete ''s'' ''a'', CallParse ''[s]'' [CHR 0x0A] ''='', CallSetParseSection True,
        CallParse ''[s]'' [CHR 0x0A] ''='']
       (SectionSet New ''s'' ''a'' ''1'')) ''s'' \<noteq> None"
proof -
  let ?st = "\<lparr>secs = [('''', []), (''s'', [])], section' = ''s'', kvmap = []\<rparr>"
  let ?p = "parseLines (SetParseSection New True) ''='' ?st [''[t]'', ''junk'']"
  let ?err = "IOError ''open f: no such file or directory''"
  let ?cs = "[CallDelete '''' ''a'', CallSectionSet ''s'' ''k'' ''v'',
        CallParseFile (\<lambda>f. Inl ?err) ''f'',
        CallParse ''junk'' [CHR 0x0A] ''='', CallDelete ''s'' ''k'']"
  let ?ds = "[CallDelete ''s'' ''a'', CallParse ''[s]'' [CHR 0x0A] ''='', CallSetParseSection True,
        CallParse ''[s]'' [CHR 0x0A] ''='']"
  have a: "GetKvmap (SectionSet New ''s'' ''a'' ''1'') ''s'' \<noteq> None"
    by (simp add: GetKvmap_def SectionSet_def New_def)
  have b: "GetKvmap (Set New ''a'' ''1'') '''' \<noteq> None"
    by (simp add: GetKvmap_def Set_def SectionSet_def New_def DefaultSection_def)
  have p: "?p = (fst ?p, snd ?p)" by (rule surjective_pairing)
  have s: "map_of (secs ?st) ''s'' \<noteq> None" by simp
  have c: "\<not> list_ex isReset ?cs" by simp
  have d: "\<not> list_ex isReset ?ds" by simp
  have 1: "GetKvmap (snd (ParseFile (\<lambda>f. Inr ''junk'') New ''f'')) '''' \<noteq> None"
    by (rule sections_persist [where ReadFile = "\<lambda>f. Inr ''junk''" and filename = "''f''"
        and data = "''junk''" and ini = New, THEN conjunct2, THEN conjunct2, THEN conjunct1,
        THEN mp]) simp
  have 2: "GetKvmap (snd (Parse (SectionSet New ''s'' ''a'' ''1'') ''b=2'' [CHR 0x0A] ''='')) ''s''
     \<noteq> None"
    using a
    by (rule sections_persist [THEN conjunct2, THEN conjunct2, THEN conjunct2, THEN conjunct1,
        THEN mp])
  have 3: "GetKvmap (SectionSet (Set New ''a'' ''1'') ''s'' ''b'' ''2'') '''' \<noteq> None"
    using b
    by (rule sections_persist [THEN conjunct2, THEN conjunct2, THEN conjunct2, THEN conjunct2,
        THEN conjunct2, THEN conjunct2, THEN conjunct1, THEN mp])
  have 4: "GetKvmap (Delete (Set New ''a'' ''1'') '''' ''a'') '''' \<noteq> None"
    using b
    by (rule sections_persist [THEN conjunct2, THEN conjunct2, THEN conjunct2, THEN conjunct2,
        THEN conjunct2, THEN conjunct2, THEN conjunct2, THEN conjunct1, THEN iffD2])
  have 5: "map_of (secs (snd ?p)) ''s'' \<noteq> None"
    using conjI [OF p s]
    by (rule sections_persist [THEN conjunct2, THEN conjunct2, THEN conjunct2, THEN conjunct2,
        THEN conjunct1, THEN mp])
  have 6: "ParseFile (\<lambda>f. Inl ?err) (Set New ''a'' ''1'') ''f'' = (Some ?err, Set New ''a'' ''1'')"
    by (rule sections_persist [where ReadFile = "\<lambda>f. Inl ?err" and filename = "''f''",
        THEN conjunct2, THEN conjunct2, THEN conjunct2, THEN conjunct2,
        THEN conjunct2, THEN conjunct2, THEN conjunct2, THEN conjunct2,
        THEN conjunct2, THEN conjunct2, THEN conjunct2, THEN conjunct1, THEN mp]) simp
  have 7: "GetKvmap (fold perform ?cs (snd (Parse New ''a=1'' [CHR 0x0A] ''=''))) '''' \<noteq> None"
    using c
    by (rule sections_persist [THEN conjunct2, THEN conjunct2, THEN conjunct2, THEN conjunct2,
        THEN conjunct2, THEN conjunct2, THEN conjunct2, THEN conjunct2,
        THEN conjunct2, THEN conjunct2, THEN conjunct2, THEN conjunct2,
        THEN conjunct2, THEN conjunct1, THEN mp, THEN conjunct1])
  have 8: "GetKvmap (fold perform ?ds (SectionSet New ''s'' ''a'' ''1'')) ''s'' \<noteq> None"
    using conjI [OF d a]
    by (rule sections_persist [THEN conjunct2, THEN conjunct2, THEN conjunct2, THEN conjunct2,
        THEN conjunct2, THEN conjunct2, THEN conjunct2, THEN conjunct2,
        THEN conjunct2, THEN conjunct2, THEN conjunct2, THEN conjunct2,
        THEN conjunct1, THEN mp])
  show ?thesis by (intro conjI 1 2 3 4 5 6 7 8)
qed

text \<open>
  A parse call that fails on the read: on a new store, \<open>ParseFile\<close> for a file that
  cannot be read and \<open>ParseFrom\<close> for a reader that fails return the error and leave
  the store without the default section.
\<close>

theorem sections_persist_counterexample:
  "ParseFile (\<lambda>f. Inl (IOError ''open f: no such file or directory'')) New ''f''
     = (Some (IOError ''open f: no such file or directory''), New) \<and>
   GetKvmap (snd (ParseFile (\<lambda>f. Inl (IOError ''open f: no such file or directory'')) New ''f''))
     '''' = None \<and>
   ParseFrom New (Inl (IOError ''unexpected EOF'')) [CHR 0x0A] ''=''
     = (Some (IOError ''unexpected EOF''), New) \<and>
   GetKvmap (snd (ParseFrom New (Inl (IOError ''unexpected EOF'')) [CHR 0x0A] ''='')) ''''
     = None"
  by (simp add: ParseFile_def ParseFrom_def GetKvmap_def New_def)

section \<open>ParseFile and the configuration flags\<close>

lemma parseINI_flags:
  "parseSection (snd (parseINI ini data ls ks)) = parseSection ini"
  "skipCommits (snd (parseINI ini data ls ks)) = skipCommits ini"
  "trimQuotes (snd (parseINI ini data ls ks)) = trimQuotes ini"
  using parseINI_sections [where ini = ini and ls = ls and ks = ks and data = data] by auto

lemma perform_keeps_flags:
  assumes "\<not> setsFlag c" and "parseSection ini" and "skipCommits ini"
  shows "parseSection (perform c ini) \<and> skipCommits (perform c ini)"
proof (cases c)
  case CallReset
  with assms show ?thesis by (simp add: Reset_def)
next
  case (CallSetSkipCommits b)
  with assms(1) show ?thesis by simp
next
  case (CallSetParseSection b)
  with assms(1) show ?thesis by simp
next
  case (CallSetTrimQuotes b)
  with assms show ?thesis by (simp add: SetTrimQuotes_def)
next
  case (CallSectionSet s k v)
  with assms show ?thesis by (simp add: SectionSet_def Let_def)
next
  case (CallDelete s k)
  with assms show ?thesis by (simp add: Delete_def split: option.splits)
next
  case (CallParse data ls ks)
  with assms show ?thesis by (simp add: Parse_def parseINI_flags)
next
  case (CallParseFrom r ls ks)
  with assms show ?thesis by (cases r) (simp_all add: ParseFrom_def parseINI_flags)
next
  case (CallParseFile ReadFile filename)
  with assms show ?thesis
    by (cases "ReadFile filename") (simp_all add: ParseFile_def parseINI_flags)
qed

lemma performs_keep_flags:
  "\<not> list_ex setsFlag cs \<Longrightarrow> parseSection ini \<Longrightarrow> skipCommits ini \<Longrightarrow>
   parseSection (fold perform cs ini) \<and> skipCommits (fold perform cs ini)"
proof (induction cs arbitrary: ini)
  case Nil
  then show ?case by simp
next
  case (Cons c cs)
  from Cons.prems have "parseSection (perform c ini) \<and> skipCommits (perform c ini)"
    by (simp add: perform_keeps_flags)
  with Cons.prems(1) Cons.IH [of "perform c ini"] show ?case by simp
qed

lemma parseLines_skip:
  assumes "\<And>st. parseLine ini ks st l = Inr st"
  shows "parseLines ini ks st0 (pre @ l # post) = parseLines ini ks st0 (pre @ post)"
  using assms by (simp add: parseLines_append split: prod.splits option.splits)

lemma parseLines_continue:
  assumes "parseLines ini ks st0 pre = (None, st)" and "parseLine ini ks st l = Inr st2"
  shows "parseLines ini ks st0 (pre @ l # post) = parseLines ini ks st2 post"
  using assms by (simp add: parseLines_append)

lemma parseINI_lines:
  "parseINI ini data ls ks =
     (fst (parseLines (ini\<lparr>lineSep := ls, kvSep := ks\<rparr>) ks
        \<lparr>secs = AList.update '''' [] (sections ini), section' = '''', kvmap = []\<rparr> (Split data ls)),
      ini\<lparr>lineSep := ls, kvSep := ks, sections := secs (snd (parseLines
        (ini\<lparr>lineSep := ls, kvSep := ks\<rparr>) ks
        \<lparr>secs = AList.update '''' [] (sections ini), section' = '''', kvmap = []\<rparr>
        (Split data ls)))\<rparr>)"
  by (simp add: parseINI_def case_prod_beta Let_def)

text \<open>
  Claim C10. When \<open>ReadFile\<close> returns the contents of the file, the store that
  \<open>ParseFile\<close> leaves has \<open>parseSection\<close> and \<open>skipCommits\<close> set; they are still set
  after a later \<open>Parse\<close> or \<open>ParseFrom\<close> on that store, and the loop of such a later
  parse, which runs with that store and the new separators, skips a line starting with
  \<open>;\<close> and takes a line \<open>[name]\<close> as a section header. When \<open>ReadFile\<close> returns an
  error, \<open>ParseFile\<close> returns that error and the store unchanged, flags included.

  The flags stay set through every sequence \<open>calls\<close> of later calls that holds no
  \<open>SetSkipCommits\<close> and no \<open>SetParseSection\<close>, hence through any number of \<open>Parse\<close>
  and \<open>ParseFrom\<close> calls, with any data and separators, failed or not. Let \<open>S\<close> be the
  store after these calls. A \<open>ParseFrom\<close> on \<open>S\<close> whose read succeeds is the \<open>Parse\<close>
  of the data read. When the input of a \<open>Parse\<close> on \<open>S\<close> splits into the lines \<open>pre\<close>,
  \<open>l\<close>, \<open>post\<close> and the trimmed \<open>l\<close> starts with \<open>;\<close>, the call returns the error and
  the store that the loop gives on \<open>pre\<close> and \<open>post\<close> alone, the same as for an input
  that splits into these lines. When the trimmed \<open>l\<close> is \<open>[name]\<close> and the loop gets
  through \<open>pre\<close> without an error, the call returns what the loop gives on \<open>post\<close>
  from the state with the fresh section \<open>name\<close> as the current section, and the store
  it leaves holds the section \<open>name\<close>.
\<close>

theorem ParseFile_sets_flags:
  "(ReadFile filename = Inr contents \<longrightarrow>
      parseSection (snd (ParseFile ReadFile ini filename)) \<and>
      skipCommits (snd (ParseFile ReadFile ini filename)) \<and>
      parseSection (snd (Parse (snd (ParseFile ReadFile ini filename)) data ls ks)) \<and>
      skipCommits (snd (Parse (snd (ParseFile ReadFile ini filename)) data ls ks)) \<and>
      parseSection (snd (ParseFrom (snd (ParseFile ReadFile ini filename)) r ls ks)) \<and>
      skipCommits (snd (ParseFrom (snd (ParseFile ReadFile ini filename)) r ls ks)) \<and>
      (TrimSpace l = CHR '';'' # cs \<longrightarrow>
         parseLine ((snd (ParseFile ReadFile ini filename))\<lparr>lineSep := ls, kvSep := ks\<rparr>) ks st l
           = Inr st) \<and>
      (TrimSpace l = CHR ''['' # name @ [CHR '']''] \<longrightarrow>
         parseLine ((snd (ParseFile ReadFile ini filename))\<lparr>lineSep := ls, kvSep := ks\<rparr>) ks st l
           = Inr \<lparr>secs = AList.update name [] (secs st), section' = name, kvmap = []\<rparr>)) \<and>
   (ReadFile filename = Inl err \<longrightarrow> ParseFile ReadFile ini filename = (Some err, ini)) \<and>
   (ReadFile filename = Inr contents \<and> \<not> list_ex setsFlag calls \<and>
    S = fold perform calls (snd (ParseFile ReadFile ini filename)) \<and>
    S' = S\<lparr>lineSep := ls, kvSep := ks\<rparr> \<and>
    init = \<lparr>secs = AList.update '''' [] (sections S), section' = '''', kvmap = []\<rparr> \<longrightarrow>
      parseSection S \<and> skipCommits S \<and>
      ParseFrom S (Inr data) ls ks = Parse S data ls ks \<and>
      (Split data ls = pre @ l # post \<and> TrimSpace l = CHR '';'' # cs \<longrightarrow>
         Parse S data ls ks =
           (fst (parseLines S' ks init (pre @ post)),
            S'\<lparr>sections := secs (snd (parseLines S' ks init (pre @ post)))\<rparr>) \<and>
         (Split data' ls = pre @ post \<longrightarrow> Parse S data ls ks = Parse S data' ls ks)) \<and>
      (Split data ls = pre @ l # post \<and> TrimSpace l = CHR ''['' # name @ [CHR '']''] \<and>
       parseLines S' ks init pre = (None, st) \<longrightarrow>
         Parse S data ls ks =
           (fst (parseLines S' ks
              \<lparr>secs = AList.update name [] (secs st), section' = name, kvmap = []\<rparr> post),
            S'\<lparr>sections := secs (snd (parseLines S' ks
              \<lparr>secs = AList.update name [] (secs st), section' = name, kvmap = []\<rparr> post))\<rparr>) \<and>
         GetKvmap (snd (Parse S data ls ks)) name \<noteq> None))"
proof -
  let ?ini' = "snd (ParseFile ReadFile ini filename)"
  have fail: "ReadFile filename = Inl err \<Longrightarrow> ParseFile ReadFile ini filename = (Some err, ini)"
    by (simp add: ParseFile_def)
  have one: "parseSection ?ini' \<and> skipCommits ?ini' \<and>
      parseSection (snd (Parse ?ini' data ls ks)) \<and>
      skipCommits (snd (Parse ?ini' data ls ks)) \<and>
      parseSection (snd (ParseFrom ?ini' r ls ks)) \<and>
      skipCommits (snd (ParseFrom ?ini' r ls ks)) \<and>
      (TrimSpace l = CHR '';'' # cs \<longrightarrow>
         parseLine (?ini'\<lparr>lineSep := ls, kvSep := ks\<rparr>) ks st l = Inr st) \<and>
      (TrimSpace l = CHR ''['' # name @ [CHR '']''] \<longrightarrow>
         parseLine (?ini'\<lparr>lineSep := ls, kvSep := ks\<rparr>) ks st l
           = Inr \<lparr>secs = AList.update name [] (secs st), section' = name, kvmap = []\<rparr>)"
    if ok: "ReadFile filename = Inr contents"
  proof -
    from ok have f: "parseSection ?ini'" "skipCommits ?ini'"
      by (simp_all add: ParseFile_def parseINI_flags)
    then have p: "parseSection (snd (Parse ?ini' data ls ks))"
        "skipCommits (snd (Parse ?ini' data ls ks))"
      by (simp_all add: Parse_def parseINI_flags)
    from f have r: "parseSection (snd (ParseFrom ?ini' r ls ks))"
        "skipCommits (snd (ParseFrom ?ini' r ls ks))"
      by (cases r; simp add: ParseFrom_def parseINI_flags)+
    have c: "TrimSpace l = CHR '';'' # cs \<Longrightarrow>
        parseLine (?ini'\<lparr>lineSep := ls, kvSep := ks\<rparr>) ks st l = Inr st"
      using f by (simp add: parseLine_comment isComment_def)
    have h: "TrimSpace l = CHR ''['' # name @ [CHR '']''] \<Longrightarrow>
        parseLine (?ini'\<lparr>lineSep := ls, kvSep := ks\<rparr>) ks st l
           = Inr \<lparr>secs = AList.update name [] (secs st), section' = name, kvmap = []\<rparr>"
      using f by (simp add: parseLine_header isComment_def isHeader_def)
    from f p r c h show ?thesis by blast
  qed
  have later: "parseSection S \<and> skipCommits S \<and>
      ParseFrom S (Inr data) ls ks = Parse S data ls ks \<and>
      (Split data ls = pre @ l # post \<and> TrimSpace l = CHR '';'' # cs \<longrightarrow>
         Parse S data ls ks =
           (fst (parseLines S' ks init (pre @ post)),
            S'\<lparr>sections := secs (snd (parseLines S' ks init (pre @ post)))\<rparr>) \<and>
         (Split data' ls = pre @ post \<longrightarrow> Parse S data ls ks = Parse S data' ls ks)) \<and>
      (Split data ls = pre @ l # post \<and> TrimSpace l = CHR ''['' # name @ [CHR '']''] \<and>
       parseLines S' ks init pre = (None, st) \<longrightarrow>
         Parse S data ls ks =
           (fst (parseLines S' ks
              \<lparr>secs = AList.update name [] (secs st), section' = name, kvmap = []\<rparr> post),
            S'\<lparr>sections := secs (snd (parseLines S' ks
              \<lparr>secs = AList.update name [] (secs st), section' = name, kvmap = []\<rparr> post))\<rparr>) \<and>
         GetKvmap (snd (Parse S data ls ks)) name \<noteq> None)"
    if ok: "ReadFile filename = Inr contents" and nf: "\<not> list_ex setsFlag calls"
      and S: "S = fold perform calls ?ini'" and S': "S' = S\<lparr>lineSep := ls, kvSep := ks\<rparr>"
      and init: "init = \<lparr>secs = AList.update '''' [] (sections S), section' = '''', kvmap = []\<rparr>"
  proof -
    from ok have "parseSection ?ini'" "skipCommits ?ini'"
      by (simp_all add: ParseFile_def parseINI_flags)
    with nf have f: "parseSection S" "skipCommits S"
      unfolding S by (simp_all add: performs_keep_flags)
    have pf: "ParseFrom S (Inr data) ls ks = Parse S data ls ks"
      by (simp add: ParseFrom_def Parse_def)
    have P: "Parse S d ls ks =
        (fst (parseLines S' ks init (Split d ls)),
         S'\<lparr>sections := secs (snd (parseLines S' ks init (Split d ls)))\<rparr>)" for d
      unfolding Parse_def S' init by (rule parseINI_lines)
    have skip: "Parse S data ls ks =
           (fst (parseLines S' ks init (pre @ post)),
            S'\<lparr>sections := secs (snd (parseLines S' ks init (pre @ post)))\<rparr>) \<and>
         (Split data' ls = pre @ post \<longrightarrow> Parse S data ls ks = Parse S data' ls ks)"
      if sp: "Split data ls = pre @ l # post" and t: "TrimSpace l = CHR '';'' # cs"
    proof -
      have "parseLine S' ks s l = Inr s" for s
        using f t by (simp add: S' parseLine_comment isComment_def)
      then have "parseLines S' ks init (pre @ l # post) = parseLines S' ks init (pre @ post)"
        by (rule parseLines_skip)
      with sp have "parseLines S' ks init (Split data ls) = parseLines S' ks init (pre @ post)"
        by simp
      then show ?thesis by (simp add: P)
    qed
    have hdr: "Parse S data ls ks =
           (fst (parseLines S' ks
              \<lparr>secs = AList.update name [] (secs st), section' = name, kvmap = []\<rparr> post),
            S'\<lparr>sections := secs (snd (parseLines S' ks
              \<lparr>secs = AList.update name [] (secs st), section' = name, kvmap = []\<rparr> post))\<rparr>) \<and>
         GetKvmap (snd (Parse S data ls ks)) name \<noteq> None"
      if sp: "Split data ls = pre @ l # post"
        and t: "TrimSpace l = CHR ''['' # name @ [CHR '']'']"
        and p: "parseLines S' ks init pre = (None, st)"
    proof -
      let ?st2 = "\<lparr>secs = AList.update name [] (secs st), section' = name, kvmap = []\<rparr>"
      let ?r = "parseLines S' ks ?st2 post"
      have "parseLine S' ks st l = Inr ?st2"
        using f t by (simp add: S' parseLine_header isComment_def isHeader_def)
      with p have "parseLines S' ks init (pre @ l # post) = ?r"
        by (rule parseLines_continue)
      with sp have e: "parseLines S' ks init (Split data ls) = ?r"
        by simp
      have r: "?r = (fst ?r, snd ?r)" by (rule surjective_pairing)
      have "map_of (secs ?st2) name \<noteq> None" by (simp add: update_conv')
      with r have "map_of (secs (snd ?r)) name \<noteq> None"
        by (rule parseLines_keeps_sections)
      with e show ?thesis by (simp add: P GetKvmap_def)
    qed
    from f pf skip hdr show ?thesis by blast
  qed
  from one fail later show ?thesis by blast
qed

theorem ParseFile_sets_flags_witness:
  "parseSection (snd (ParseFile (\<lambda>f. Inr ''a=1'') New ''f'')) \<and>
   skipCommits (snd (ParseFile (\<lambda>f. Inr ''a=1'') New ''f'')) \<and>
   parseSection (snd (Parse (snd (ParseFile (\<lambda>f. Inr ''a=1'') New ''f'')) ''b=2'' ''|'' '':'')) \<and>
   skipCommits (snd (Parse (snd (ParseFile (\<lambda>f. Inr ''a=1'') New ''f'')) ''b=2'' ''|'' '':'')) \<and>
   ParseFile (\<lambda>f. Inl (IOError ''open f: no such file or directory'')) New ''f''
     = (Some (IOError ''open f: no such file or directory''), New) \<and>
   parseSection (fold perform
     [CallParse ''x:1|y:2'' ''|'' '':'', CallParseFrom (Inl (IOError ''unexpected EOF'')) [CHR 0x0A] ''='',
      CallParseFrom (Inr ''no separator'') [CHR 0x0A] ''='', CallSectionSet ''t'' ''k'' ''v'']
     (snd (ParseFile (\<lambda>f. Inr ''a=1'') New ''f''))) \<and>
   skipCommits (fold perform
     [CallParse ''x:1|y:2'' ''|'' '':'', CallParseFrom (Inl (IOError ''unexpected EOF'')) [CHR 0x0A] ''='',
      CallParseFrom (Inr ''no separator'') [CHR 0x0A] ''='', CallSectionSet ''t'' ''k'' ''v'']
     (snd (ParseFile (\<lambda>f. Inr ''a=1'') New ''f''))) \<and>
   Parse (fold perform
     [CallParse ''x:1|y:2'' ''|'' '':'', CallParseFrom (Inl (IOError ''unexpected EOF'')) [CHR 0x0A] ''='',
      CallParseFrom (Inr ''no separator'') [CHR 0x0A] ''='', CallSectionSet ''t'' ''k'' ''v'']
     (snd (ParseFile (\<lambda>f. Inr ''a=1'') New ''f'')))
     (''; c'' @ [CHR 0x0A] @ ''[s]'' @ [CHR 0x0A] @ ''b=2'') [CHR 0x0A] ''=''
   = Parse (fold perform
     [CallParse ''x:1|y:2'' ''|'' '':'', CallParseFrom (Inl (IOError ''unexpected EOF'')) [CHR 0x0A] ''='',
      CallParseFrom (Inr ''no separator'') [CHR 0x0A] ''='', CallSectionSet ''t'' ''k'' ''v'']
     (snd (ParseFile (\<lambda>f. Inr ''a=1'') New ''f'')))
     (''[s]'' @ [CHR 0x0A] @ ''b=2'') [CHR 0x0A] ''='' \<and>
   GetKvmap (snd (Parse (fold perform
     [CallParse ''x:1|y:2'' ''|'' '':'', CallParseFrom (Inl (IOError ''unexpected EOF'')) [CHR 0x0A] ''='',
      CallParseFrom (Inr ''no separator'') [CHR 0x0A] ''='', CallSectionSet ''t'' ''k'' ''v'']
     (snd (ParseFile (\<lambda>f. Inr ''a=1'') New ''f'')))
     (''; c'' @ [CHR 0x0A] @ ''[s]'' @ [CHR 0x0A] @ ''b=2'') [CHR 0x0A] ''='')) ''s'' \<noteq> None \<and>
   Parse (fold perform
     [CallParse ''x:1|y:2'' ''|'' '':'', CallParseFrom (Inl (IOError ''unexpected EOF'')) [CHR 0x0A] ''='',
      CallParseFrom (Inr ''no separator'') [CHR 0x0A] ''='', CallSectionSet ''t'' ''k'' ''v'']
     (snd (ParseFile (\<lambda>f. Inr ''a=1'') New ''f'')))
     (''; c'' @ [CHR 0x0A] @ ''[s]'' @ [CHR 0x0A] @ ''b=2'') [CHR 0x0A] ''=''
   = (None, \<lparr>sections = [('''', []), (''t'', [(''k'', ''v'')]), (''s'', [(''b'', ''2'')])],
        lineSep = [CHR 0x0A], kvSep = ''='', parseSection = True, skipCommits = True,
        trimQuotes = False\<rparr>)"
proof -
  let ?rf = "\<lambda>f. Inr ''a=1'' :: error + bytes"
  let ?err = "IOError ''open f: no such file or directory''"
  let ?P = "snd (ParseFile ?rf New ''f'')"
  let ?calls = "[CallParse ''x:1|y:2'' ''|'' '':'',
      CallParseFrom (Inl (IOError ''unexpected EOF'')) [CHR 0x0A] ''='',
      CallParseFrom (Inr ''no separator'') [CHR 0x0A] ''='', CallSectionSet ''t'' ''k'' ''v'']"
  let ?S = "fold perform ?calls ?P"
  let ?S1 = "?S\<lparr>lineSep := [CHR 0x0A], kvSep := ''=''\<rparr>"
  let ?st0 = "\<lparr>secs = AList.update '''' [] (sections ?S), section' = '''', kvmap = []\<rparr>"
  let ?data = "''; c'' @ [CHR 0x0A] @ ''[s]'' @ [CHR 0x0A] @ ''b=2''"
  let ?data' = "''[s]'' @ [CHR 0x0A] @ ''b=2''"
  have ok: "?rf ''f'' = Inr ''a=1''" by simp
  have nf: "\<not> list_ex setsFlag ?calls" by simp
  have H: "?rf ''f'' = Inr ''a=1'' \<and> \<not> list_ex setsFlag ?calls \<and> ?S = fold perform ?calls ?P \<and>
      ?S1 = ?S\<lparr>lineSep := [CHR 0x0A], kvSep := ''=''\<rparr> \<and>
      ?st0 = \<lparr>secs = AList.update '''' [] (sections ?S), section' = '''', kvmap = []\<rparr>"
    by (intro conjI ok nf refl)
  have sp: "Split ?data [CHR 0x0A] = [] @ ''; c'' # [''[s]'', ''b=2'']" by code_simp
  have t: "TrimSpace ''; c'' = CHR '';'' # '' c''" by code_simp
  have sp': "Split ?data' [CHR 0x0A] = [] @ [''[s]'', ''b=2'']" by code_simp
  have sph: "Split ?data [CHR 0x0A] = [''; c''] @ ''[s]'' # [''b=2'']" by code_simp
  have th: "TrimSpace ''[s]'' = CHR ''['' # ''s'' @ [CHR '']'']" by code_simp
  have ph: "parseLines ?S1 ''='' ?st0 [''; c''] = (None, ?st0)" by code_simp
  note A = ParseFile_sets_flags [where ReadFile = ?rf and filename = "''f''"
      and contents = "''a=1''" and ini = New and data = "''b=2''" and ls = "''|''"
      and ks = "'':''", THEN conjunct1, THEN mp, OF ok]
  have 1: "parseSection ?P" by (rule A [THEN conjunct1])
  have 2: "skipCommits ?P" by (rule A [THEN conjunct2, THEN conjunct1])
  have 3: "parseSection (snd (Parse ?P ''b=2'' ''|'' '':''))"
    by (rule A [THEN conjunct2, THEN conjunct2, THEN conjunct1])
  have 4: "skipCommits (snd (Parse ?P ''b=2'' ''|'' '':''))"
    by (rule A [THEN conjunct2, THEN conjunct2, THEN conjunct2, THEN conjunct1])
  have 5: "ParseFile (\<lambda>f. Inl ?err) New ''f'' = (Some ?err, New)"
    by (rule ParseFile_sets_flags [where ReadFile = "\<lambda>f. Inl ?err" and filename = "''f''",
        THEN conjunct2, THEN conjunct1, THEN mp]) simp
  note B = ParseFile_sets_flags [where ReadFile = ?rf and filename = "''f''"
      and contents = "''a=1''" and ini = New and calls = ?calls and S = ?S and S' = ?S1
      and init = ?st0 and data = ?data and ls = "[CHR 0x0A]" and ks = "''=''"
      and pre = "[]" and l = "''; c''" and post = "[''[s]'', ''b=2'']" and cs = "'' c''"
      and data' = ?data',
      THEN conjunct2, THEN conjunct2, THEN mp, OF H]
  note C = ParseFile_sets_flags [where ReadFile = ?rf and filename = "''f''"
      and contents = "''a=1''" and ini = New and calls = ?calls and S = ?S and S' = ?S1
      and init = ?st0 and data = ?data and ls = "[CHR 0x0A]" and ks = "''=''"
      and pre = "[''; c'']" and l = "''[s]''" and post = "[''b=2'']" and name = "''s''"
      and st = ?st0,
      THEN conjunct2, THEN conjunct2, THEN mp, OF H]
  have 6: "parseSection ?S" by (rule B [THEN conjunct1])
  have 7: "skipCommits ?S" by (rule B [THEN conjunct2, THEN conjunct1])
  have 8: "Parse ?S ?data [CHR 0x0A] ''='' = Parse ?S ?data' [CHR 0x0A] ''=''"
    by (rule B [THEN conjunct2, THEN conjunct2, THEN conjunct2, THEN conjunct1, THEN mp,
        OF conjI [OF sp t], THEN conjunct2, THEN mp, OF sp'])
  have 9: "GetKvmap (snd (Parse ?S ?data [CHR 0x0A] ''='')) ''s'' \<noteq> None"
    by (rule C [THEN conjunct2, THEN conjunct2, THEN conjunct2, THEN conjunct2, THEN mp,
        OF conjI [OF sph conjI [OF th ph]], THEN conjunct2])
  have 10: "Parse ?S ?data [CHR 0x0A] ''=''
      = (None, \<lparr>sections = [('''', []), (''t'', [(''k'', ''v'')]), (''s'', [(''b'', ''2'')])],
          lineSep = [CHR 0x0A], kvSep = ''='', parseSection = True, skipCommits = True,
          trimQuotes = False\<rparr>)"
    by code_simp
  show ?thesis by (intro conjI 1 2 3 4 5 6 7 8 9 10)
qed

text \<open>
  The same input through \<open>Parse\<close>: after \<open>ParseFile\<close>, on a new store, and after
  \<open>ParseFile\<close> and four further calls.
\<close>

lemma Parse_after_ParseFile_example:
  "Parse (snd (ParseFile (\<lambda>f. Inr ''a=1'') New ''f''))
     (''; c'' @ [CHR 0x0A] @ ''[s]'' @ [CHR 0x0A] @ ''b=2'') [CHR 0x0A] ''=''
   = (None, \<lparr>sections = [('''', []), (''s'', [(''b'', ''2'')])], lineSep = [CHR 0x0A],
        kvSep = ''='', parseSection = True, skipCommits = True, trimQuotes = False\<rparr>)"
  "Parse New (''; c'' @ [CHR 0x0A] @ ''[s]'' @ [CHR 0x0A] @ ''b=2'') [CHR 0x0A] ''=''
   = (Some (ErrorString ''Came accross an error : ; c is NOT a valid key/value pair''),
      New\<lparr>sections := [('''', [])]\<rparr>)"
  "Parse (fold perform
     [CallParse ''x:1|y:2'' ''|'' '':'', CallParseFrom (Inl (IOError ''unexpected EOF'')) [CHR 0x0A] ''='',
      CallParseFrom (Inr ''no separator'') [CHR 0x0A] ''='', CallSectionSet ''t'' ''k'' ''v'']
     (snd (ParseFile (\<lambda>f. Inr ''a=1'') New ''f'')))
     (''; c'' @ [CHR 0x0A] @ ''[s]'' @ [CHR 0x0A] @ ''b=2'') [CHR 0x0A] ''=''
   = (None, \<lparr>sections = [('''', []), (''t'', [(''k'', ''v'')]), (''s'', [(''b'', ''2'')])],
        lineSep = [CHR 0x0A], kvSep = ''='', parseSection = True, skipCommits = True,
        trimQuotes = False\<rparr>)"
  by code_simp+

section \<open>Well-formed stores and the result of DiffINI\<close>

lemma wfSections_lookup:
  "wfSections ss \<Longrightarrow> (n, kv) \<in> set ss \<Longrightarrow> map_of ss n = Some kv \<and> distinct (map fst kv)"
  by (auto simp: wfSections_def distinctKeys_def list_all_iff)

lemma wfSections_kvmap:
  "wfSections ss \<Longrightarrow> map_of ss n = Some kv \<Longrightarrow> distinct (map fst kv)"
  by (auto simp: wfSections_def distinctKeys_def list_all_iff dest: map_of_SomeD)

lemma diffSectionA_Nil:
  assumes "map_of (sections b) n = Some kv'" and "\<forall>(k, v) \<in> set kv. map_of kv' k = Some v"
  shows "diffSectionA b (n, kv) = []"
  using assms by (auto simp: diffSectionA_def)

lemma diffSectionB_Nil:
  assumes "map_of (sections a) n = Some kv'" and "\<forall>(k, v) \<in> set kv. map_of kv' k \<noteq> None"
  shows "diffSectionB a (n, kv) = []"
  using assms by (auto simp: diffSectionB_def)

lemma DiffINI_equiv:
  assumes "wfSections (sections a)" and "wfSections (sections b)" and "storeMap a = storeMap b"
  shows "DiffINI a b = []"
proof -
  have half: "diffSectionA y (n, kv) = [] \<and> diffSectionB y (n, kv) = []"
    if x: "wfSections (sections x)" and e: "storeMap x = storeMap y"
      and m: "(n, kv) \<in> set (sections x)" for x y n kv
  proof -
    from x m have l: "map_of (sections x) n = Some kv" and d: "distinct (map fst kv)"
      by (auto dest: wfSections_lookup)
    from l have "storeMap x n = Some (map_of kv)" by (simp add: storeMap_def)
    with e have "storeMap y n = Some (map_of kv)" by simp
    then obtain kv' where l': "map_of (sections y) n = Some kv'" and k: "map_of kv' = map_of kv"
      by (auto simp: storeMap_def)
    from d k have "\<forall>(k, v) \<in> set kv. map_of kv' k = Some v" by auto
    with l' show ?thesis
      by (auto intro!: diffSectionA_Nil diffSectionB_Nil)
  qed
  have "\<forall>p \<in> set (sections a). diffSectionA b p = []"
    using half [OF assms(1) assms(3)] by auto
  moreover have "\<forall>p \<in> set (sections b). diffSectionB a p = []"
    using half [OF assms(2) assms(3) [symmetric]] by auto
  ultimately show ?thesis by (simp add: DiffINI_def)
qed

lemma kvmapAssign_wf:
  assumes "wfSections (secs st)" and "distinctKeys (kvmap st)"
  shows "wfSections (secs (kvmapAssign st k v))" and "distinctKeys (kvmap (kvmapAssign st k v))"
proof -
  show d: "distinctKeys (kvmap (kvmapAssign st k v))"
    using assms(2) by (simp add: kvmapAssign_def Let_def distinctKeys_def distinct_update)
  have "list_all (\<lambda>p. distinctKeys (snd p)) (AList.update n kv ss)"
    if "list_all (\<lambda>p. distinctKeys (snd p)) ss" and "distinctKeys kv" for n kv and ss :: SectionMap
    using that by (induction ss) auto
  with assms(1) d show "wfSections (secs (kvmapAssign st k v))"
    by (simp add: kvmapAssign_def Let_def wfSections_def distinctKeys_def distinct_update)
qed

lemma wfSections_update:
  "wfSections ss \<Longrightarrow> distinctKeys kv \<Longrightarrow> wfSections (AList.update n kv ss)"
proof -
  have "list_all (\<lambda>p. distinctKeys (snd p)) (AList.update n kv ss)"
    if "list_all (\<lambda>p. distinctKeys (snd p)) ss" and "distinctKeys kv"
    using that by (induction ss) auto
  then show "wfSections ss \<Longrightarrow> distinctKeys kv \<Longrightarrow> wfSections (AList.update n kv ss)"
    by (simp add: wfSections_def distinctKeys_def distinct_update)
qed

lemma parseLine_wf:
  assumes "parseLine ini ks st l = Inr st'" and "wfSections (secs st)" and "distinctKeys (kvmap st)"
  shows "wfSections (secs st') \<and> distinctKeys (kvmap st')"
proof (cases rule: parseLine_cases [where l = l and ini = ini and ks = ks and st = st])
  case blank
  with assms show ?thesis by simp
next
  case comment
  with assms show ?thesis by simp
next
  case (header name)
  with assms(1) have "st' = \<lparr>secs = AList.update name [] (secs st), section' = name, kvmap = []\<rparr>"
    by simp
  with assms(2) show ?thesis
    by (simp add: wfSections_update distinctKeys_def)
next
  case (error err)
  with assms show ?thesis by simp
next
  case (pair k v)
  with assms(1) have "st' = kvmapAssign st k v" by simp
  with assms(2,3) show ?thesis by (simp add: kvmapAssign_wf)
qed

lemma parseLines_wf:
  "parseLines ini ks st xs = (e, st') \<Longrightarrow> wfSections (secs st) \<Longrightarrow> distinctKeys (kvmap st)
     \<Longrightarrow> wfSections (secs st')"
proof (induction xs arbitrary: st)
  case Nil
  then show ?case by simp
next
  case (Cons l xs)
  show ?case
  proof (cases "parseLine ini ks st l")
    case (Inl err)
    with Cons.prems show ?thesis by simp
  next
    case (Inr st1)
    with Cons.prems have "wfSections (secs st1) \<and> distinctKeys (kvmap st1)"
      using parseLine_wf by blast
    moreover from Inr Cons.prems(1) have "parseLines ini ks st1 xs = (e, st')" by simp
    ultimately show ?thesis using Cons.IH by blast
  qed
qed

lemma wfSections_New: "wfSections (sections New)"
  by (simp add: New_def wfSections_def distinctKeys_def)

lemma wfSections_Reset: "wfSections (sections (Reset ini))"
  by (simp add: Reset_def wfSections_def distinctKeys_def)

lemma wfSections_SectionSet:
  "wfSections (sections ini) \<Longrightarrow> wfSections (sections (SectionSet ini s k v))"
  by (auto simp: SectionSet_def Let_def distinctKeys_def distinct_update
      intro!: wfSections_update dest: wfSections_kvmap split: option.splits)

lemma wfSections_Delete:
  "wfSections (sections ini) \<Longrightarrow> wfSections (sections (Delete ini s k))"
  by (auto simp: Delete_def GetKvmap_def distinctKeys_def distinct_delete
      intro!: wfSections_update dest: wfSections_kvmap split: option.splits)

lemma wfSections_parseINI:
  assumes "wfSections (sections ini)"
  shows "wfSections (sections (snd (parseINI ini data ls ks)))"
proof -
  obtain e st where p: "parseLines (ini\<lparr>lineSep := ls, kvSep := ks\<rparr>) ks
       \<lparr>secs = AList.update '''' [] (sections ini), section' = '''', kvmap = []\<rparr> (Split data ls)
       = (e, st)"
    and r: "parseINI ini data ls ks = (e, ini\<lparr>lineSep := ls, kvSep := ks, sections := secs st\<rparr>)"
    using parseINI_sections by blast
  have "wfSections (secs st)"
    using p by (rule parseLines_wf) (simp_all add: assms wfSections_update distinctKeys_def)
  with r show ?thesis by simp
qed

lemma reachable_wf: "reachable ini \<Longrightarrow> wfSections (sections ini)"
proof (induction rule: reachable.induct)
  case reachable_New
  show ?case by (rule wfSections_New)
next
  case (reachable_Reset ini)
  show ?case by (rule wfSections_Reset)
next
  case (reachable_SetSkipCommits ini b)
  then show ?case by (simp add: SetSkipCommits_def)
next
  case (reachable_SetParseSection ini b)
  then show ?case by (simp add: SetParseSection_def)
next
  case (reachable_SetTrimQuotes ini b)
  then show ?case by (simp add: SetTrimQuotes_def)
next
  case (reachable_SectionSet ini s k v)
  then show ?case by (simp add: wfSections_SectionSet)
next
  case (reachable_Delete ini s k)
  then show ?case by (simp add: wfSections_Delete)
next
  case (reachable_parseINI ini data ls ks)
  then show ?case by (simp add: wfSections_parseINI)
qed

lemma reachable_Parse: "reachable ini \<Longrightarrow> reachable (snd (Parse ini data ls ks))"
  by (simp add: Parse_def reachable_parseINI)

lemma reachable_ParseFrom: "reachable ini \<Longrightarrow> reachable (snd (ParseFrom ini r ls ks))"
  by (cases r) (simp_all add: ParseFrom_def reachable_parseINI)

lemma reachable_ParseFile: "reachable ini \<Longrightarrow> reachable (snd (ParseFile ReadFile ini filename))"
proof (cases "ReadFile filename")
  case (Inl err)
  then show "reachable ini \<Longrightarrow> ?thesis" by (simp add: ParseFile_def)
next
  case (Inr contents)
  assume "reachable ini"
  then have "reachable (SetSkipCommits (SetParseSection ini True) True)"
    by (intro reachable_SetSkipCommits reachable_SetParseSection)
  then have "reachable (snd (parseINI (ini\<lparr>parseSection := True, skipCommits := True\<rparr>) contents
      DefaultLineSeparator DefaultKeyValueSeparator))"
    unfolding SetSkipCommits_def SetParseSection_def by (rule reachable_parseINI)
  with Inr show ?thesis by (simp add: ParseFile_def)
qed

lemma reachable_Set: "reachable ini \<Longrightarrow> reachable (Set ini k v)"
  by (simp add: Set_def reachable_SectionSet)

lemma sameState_header:
  "sameState s1 s2 \<Longrightarrow>
   sameState \<lparr>secs = AList.update n [] (secs s1), section' = n, kvmap = []\<rparr>
     \<lparr>secs = AList.update n [] (secs s2), section' = n, kvmap = []\<rparr>"
  by (simp add: sameState_def update_conv')

lemma sameState_kvmapAssign:
  "sameState s1 s2 \<Longrightarrow> sameState (kvmapAssign s1 k v) (kvmapAssign s2 k v)"
  by (simp add: sameState_def kvmapAssign_def Let_def update_conv')

lemma parseLine_sameState:
  assumes "sameFlags a b" and "sameState s1 s2"
  shows "rel_sum (=) sameState (parseLine a ks s1 l) (parseLine b ks s2 l)"
proof -
  let ?t = "TrimSpace l"
  from assms(1) have c: "isComment a ?t = isComment b ?t" and h: "isHeader a ?t = isHeader b ?t"
    and v: "pairValue a ks ?t = pairValue b ks ?t"
    by (simp_all add: sameFlags_def isComment_def isHeader_def pairValue_def)
  consider "?t = []" | "?t \<noteq> []" "isComment a ?t"
    | "?t \<noteq> []" "\<not> isComment a ?t" "isHeader a ?t"
    | "?t \<noteq> []" "\<not> isComment a ?t" "\<not> isHeader a ?t" "Index ?t ks < 0"
    | "?t \<noteq> []" "\<not> isComment a ?t" "\<not> isHeader a ?t" "0 \<le> Index ?t ks"
    by fastforce
  then show ?thesis
  proof cases
    case 1
    with assms(2) show ?thesis by (simp add: parseLine_blank)
  next
    case 2
    with c assms(2) show ?thesis by (simp add: parseLine_comment)
  next
    case 3
    with c h assms(2) show ?thesis by (simp add: parseLine_header sameState_header)
  next
    case 4
    with c h show ?thesis by (simp add: parseLine_error)
  next
    case 5
    with c h v assms(2) show ?thesis by (simp add: parseLine_pair sameState_kvmapAssign)
  qed
qed

lemma parseLines_sameState:
  assumes "sameFlags a b"
  shows "sameState s1 s2 \<Longrightarrow>
    rel_prod (=) sameState (parseLines a ks s1 xs) (parseLines b ks s2 xs)"
proof (induction xs arbitrary: s1 s2)
  case Nil
  then show ?case by simp
next
  case (Cons l xs)
  have r: "rel_sum (=) sameState (parseLine a ks s1 l) (parseLine b ks s2 l)"
    using assms Cons.prems by (rule parseLine_sameState)
  show ?case
  proof (cases "parseLine a ks s1 l")
    case (Inl e1)
    with r obtain e2 where "parseLine b ks s2 l = Inl e2" and "e1 = e2"
      by (cases "parseLine b ks s2 l") auto
    with Inl Cons.prems show ?thesis by simp
  next
    case (Inr t1)
    with r obtain t2 where "parseLine b ks s2 l = Inr t2" and "sameState t1 t2"
      by (cases "parseLine b ks s2 l") auto
    with Inr Cons.IH [of t1 t2] show ?thesis by simp
  qed
qed

lemma sameFlags_seps:
  "sameFlags a b \<Longrightarrow> sameFlags (a\<lparr>lineSep := ls, kvSep := ks\<rparr>) (b\<lparr>lineSep := ls, kvSep := ks\<rparr>)"
  by (simp add: sameFlags_def)

lemma parseINI_same_content:
  assumes "sameFlags a b" and "storeMap a = storeMap b"
  shows "fst (parseINI a data ls ks) = fst (parseINI b data ls ks) \<and>
    storeMap (snd (parseINI a data ls ks)) = storeMap (snd (parseINI b data ls ks))"
proof -
  let ?a = "a\<lparr>lineSep := ls, kvSep := ks\<rparr>" and ?b = "b\<lparr>lineSep := ls, kvSep := ks\<rparr>"
  let ?s1 = "\<lparr>secs = AList.update '''' [] (sections a), section' = '''', kvmap = []\<rparr>"
  let ?s2 = "\<lparr>secs = AList.update '''' [] (sections b), section' = '''', kvmap = []\<rparr>"
  from assms(2) have "storeMap a n = storeMap b n" for n by simp
  then have "sameState ?s1 ?s2"
    by (simp add: sameState_def storeMap_def update_conv')
  with sameFlags_seps [OF assms(1)]
  have r: "rel_prod (=) sameState (parseLines ?a ks ?s1 (Split data ls))
      (parseLines ?b ks ?s2 (Split data ls))"
    by (rule parseLines_sameState)
  obtain e1 t1 where p1: "parseLines ?a ks ?s1 (Split data ls) = (e1, t1)"
    by (cases "parseLines ?a ks ?s1 (Split data ls)")
  obtain e2 t2 where p2: "parseLines ?b ks ?s2 (Split data ls) = (e2, t2)"
    by (cases "parseLines ?b ks ?s2 (Split data ls)")
  from r p1 p2 have "e1 = e2" and "sameState t1 t2" by simp_all
  with p1 p2 show ?thesis
    by (simp add: parseINI_def storeMap_def sameState_def fun_eq_iff)
qed

text \<open>
  Claim C4. For every store \<open>S\<close> that a program can build (\<open>reachable\<close>),
  \<open>DiffINI S S\<close> is the empty list. Such a store satisfies \<open>wfSections\<close>, the
  representation invariant of the model (the keys of a Go map are distinct), and the
  invariant is all the statement needs. More generally the result is empty for two
  stores with the same content (the same section names, each with the same pairs), in
  whatever order their maps are visited. Last, two stores \<open>a\<close> and \<open>b\<close> built
  independently, with the same content and the same three flags, that parse the same
  input with the same separators have an empty diff afterwards; two new stores
  configured alike are the case the specification names.
\<close>

theorem DiffINI_same_store:
  "(reachable S \<longrightarrow> DiffINI S S = []) \<and>
   (wfSections (sections S) \<longrightarrow> DiffINI S S = []) \<and>
   (wfSections (sections A) \<and> wfSections (sections B) \<and> storeMap A = storeMap B
      \<longrightarrow> DiffINI A B = []) \<and>
   (reachable a \<and> reachable b \<and> sameFlags a b \<and> storeMap a = storeMap b \<longrightarrow>
      DiffINI (snd (Parse a data ls ks)) (snd (Parse b data ls ks)) = [])"
proof -
  have "DiffINI (snd (Parse a data ls ks)) (snd (Parse b data ls ks)) = []"
    if "reachable a" "reachable b" "sameFlags a b" "storeMap a = storeMap b"
  proof (rule DiffINI_equiv)
    show "wfSections (sections (snd (Parse a data ls ks)))"
      using that(1) by (intro reachable_wf reachable_Parse)
    show "wfSections (sections (snd (Parse b data ls ks)))"
      using that(2) by (intro reachable_wf reachable_Parse)
    show "storeMap (snd (Parse a data ls ks)) = storeMap (snd (Parse b data ls ks))"
      using parseINI_same_content [OF that(3,4)] by (simp add: Parse_def)
  qed
  then show ?thesis
    by (simp add: DiffINI_equiv reachable_wf)
qed

theorem DiffINI_same_store_witness:
  "DiffINI (SectionSet (Set New ''a'' ''1'') ''s'' ''b'' ''2'')
     (SectionSet (Set New ''a'' ''1'') ''s'' ''b'' ''2'') = [] \<and>
   DiffINI (snd (Parse (SetParseSection New True)
       (''a=1'' @ [CHR 0x0A] @ ''[s]'' @ [CHR 0x0A] @ ''b=2'') [CHR 0x0A] ''=''))
     (snd (Parse (Reset (Set (SetParseSection New True) ''x'' ''y''))
       (''a=1'' @ [CHR 0x0A] @ ''[s]'' @ [CHR 0x0A] @ ''b=2'') [CHR 0x0A] ''='')) = [] \<and>
   DiffINI (New\<lparr>sections := [('''', [(''a'', ''1''), (''b'', ''2'')]), (''s'', [])]\<rparr>)
     (New\<lparr>sections := [(''s'', []), ('''', [(''b'', ''2''), (''a'', ''1'')])]\<rparr>) = []"
proof -
  let ?A = "New\<lparr>sections := [('''', [(''a'', ''1''), (''b'', ''2'')]), (''s'', [])]\<rparr>"
  let ?B = "New\<lparr>sections := [(''s'', []), ('''', [(''b'', ''2''), (''a'', ''1'')])]\<rparr>"
  let ?a = "SetParseSection New True"
  let ?b = "Reset (Set (SetParseSection New True) ''x'' ''y'')"
  have s: "reachable (SectionSet (Set New ''a'' ''1'') ''s'' ''b'' ''2'')"
    by (intro reachable_SectionSet reachable_Set reachable_New)
  have ra: "reachable ?a"
    by (intro reachable_SetParseSection reachable_New)
  have rb: "reachable ?b"
    by (intro reachable_Reset reachable_Set reachable_SetParseSection reachable_New)
  have f: "sameFlags ?a ?b"
    by (simp add: sameFlags_def Reset_def Set_def SectionSet_def SetParseSection_def)
  have m: "storeMap ?a = storeMap ?b"
    by (simp add: storeMap_def fun_eq_iff Reset_def SetParseSection_def New_def)
  have a: "wfSections (sections ?A)" and b: "wfSections (sections ?B)"
    by (simp_all add: wfSections_def distinctKeys_def)
  have e: "storeMap ?A = storeMap ?B"
    by (auto simp: storeMap_def fun_eq_iff)
  show ?thesis
    using DiffINI_same_store [where S = "SectionSet (Set New ''a'' ''1'') ''s'' ''b'' ''2''"
        and a = ?a and b = ?b and A = ?A and B = ?B] s ra rb f m a b e
    by blast
qed

lemmas DIFF_defs = DIFF_SECTION_ONLY_IN_A_def DIFF_KEY_ONLY_IN_A_def DIFF_VALUES_DIFFER_def
  DIFF_SECTION_ONLY_IN_B_def DIFF_KEY_ONLY_IN_B_def

lemma swapAB_swapAB [simp]: "swapAB (swapAB r) = r"
  by (simp add: swapAB_def swapState_def DIFF_defs)

lemma in_diffSectionA:
  "r \<in> set (diffSectionA b (n, kv)) \<longleftrightarrow>
     (map_of (sections b) n = None \<and>
        r = \<lparr>State = DIFF_SECTION_ONLY_IN_A, Section = n, Key = '''', AVal = '''', BVal = ''''\<rparr>) \<or>
     (\<exists>kv' k v. map_of (sections b) n = Some kv' \<and> (k, v) \<in> set kv \<and>
        (map_of kv' k = None \<and>
           r = \<lparr>State = DIFF_KEY_ONLY_IN_A, Section = n, Key = k, AVal = v, BVal = ''''\<rparr> \<or>
         (\<exists>v'. map_of kv' k = Some v' \<and> v \<noteq> v' \<and>
           r = \<lparr>State = DIFF_VALUES_DIFFER, Section = n, Key = k, AVal = v, BVal = v'\<rparr>)))"
proof (cases "map_of (sections b) n")
  case None
  then show ?thesis by (simp add: diffSectionA_def)
next
  case (Some kv')
  have "r \<in> set (diffSectionA b (n, kv)) \<longleftrightarrow>
    (\<exists>(k, v) \<in> set kv. r \<in> set (case map_of kv' k of
               None \<Rightarrow>
                 [\<lparr>State = DIFF_KEY_ONLY_IN_A, Section = n, Key = k, AVal = v, BVal = []\<rparr>]
             | Some bval \<Rightarrow>
                 if v \<noteq> bval then
                   [\<lparr>State = DIFF_VALUES_DIFFER, Section = n, Key = k, AVal = v, BVal = bval\<rparr>]
                 else []))"
    using Some by (auto simp: diffSectionA_def)
  also have "\<dots> \<longleftrightarrow> (\<exists>k v. (k, v) \<in> set kv \<and>
        (map_of kv' k = None \<and>
           r = \<lparr>State = DIFF_KEY_ONLY_IN_A, Section = n, Key = k, AVal = v, BVal = []\<rparr> \<or>
         (\<exists>v'. map_of kv' k = Some v' \<and> v \<noteq> v' \<and>
           r = \<lparr>State = DIFF_VALUES_DIFFER, Section = n, Key = k, AVal = v, BVal = v'\<rparr>)))"
  proof -
    have "r \<in> set (case map_of kv' k of
               None \<Rightarrow>
                 [\<lparr>State = DIFF_KEY_ONLY_IN_A, Section = n, Key = k, AVal = v, BVal = []\<rparr>]
             | Some bval \<Rightarrow>
                 if v \<noteq> bval then
                   [\<lparr>State = DIFF_VALUES_DIFFER, Section = n, Key = k, AVal = v, BVal = bval\<rparr>]
                 else []) \<longleftrightarrow>
       (map_of kv' k = None \<and>
           r = \<lparr>State = DIFF_KEY_ONLY_IN_A, Section = n, Key = k, AVal = v, BVal = []\<rparr> \<or>
         (\<exists>v'. map_of kv' k = Some v' \<and> v \<noteq> v' \<and>
           r = \<lparr>State = DIFF_VALUES_DIFFER, Section = n, Key = k, AVal = v, BVal = v'\<rparr>))"
      for k v
      by (cases "map_of kv' k") auto
    then show ?thesis by (simp add: Bex_def)
  qed
  finally show ?thesis using Some by simp
qed

lemma in_diffSectionB:
  "r \<in> set (diffSectionB a (n, kv)) \<longleftrightarrow>
     (map_of (sections a) n = None \<and>
        r = \<lparr>State = DIFF_SECTION_ONLY_IN_B, Section = n, Key = '''', AVal = '''', BVal = ''''\<rparr>) \<or>
     (\<exists>kv' k v. map_of (sections a) n = Some kv' \<and> (k, v) \<in> set kv \<and> map_of kv' k = None \<and>
           r = \<lparr>State = DIFF_KEY_ONLY_IN_B, Section = n, Key = k, AVal = '''', BVal = v\<rparr>)"
proof (cases "map_of (sections a) n")
  case None
  then show ?thesis by (simp add: diffSectionB_def)
next
  case (Some kv')
  have "r \<in> set (diffSectionB a (n, kv)) \<longleftrightarrow>
    (\<exists>(k, v) \<in> set kv. r \<in> set (case map_of kv' k of
               None \<Rightarrow>
                 [\<lparr>State = DIFF_KEY_ONLY_IN_B, Section = n, Key = k, AVal = [], BVal = v\<rparr>]
             | Some aval \<Rightarrow> []))"
    using Some by (auto simp: diffSectionB_def)
  also have "\<dots> \<longleftrightarrow> (\<exists>k v. (k, v) \<in> set kv \<and> map_of kv' k = None \<and>
           r = \<lparr>State = DIFF_KEY_ONLY_IN_B, Section = n, Key = k, AVal = [], BVal = v\<rparr>)"
  proof -
    have "r \<in> set (case map_of kv' k of
               None \<Rightarrow>
                 [\<lparr>State = DIFF_KEY_ONLY_IN_B, Section = n, Key = k, AVal = [], BVal = v\<rparr>]
             | Some aval \<Rightarrow> []) \<longleftrightarrow>
       (map_of kv' k = None \<and>
           r = \<lparr>State = DIFF_KEY_ONLY_IN_B, Section = n, Key = k, AVal = [], BVal = v\<rparr>)"
      for k v
      by (cases "map_of kv' k") auto
    then show ?thesis by (simp add: Bex_def)
  qed
  finally show ?thesis using Some by simp
qed

lemma stored_SectionGet:
  "SectionGet ini n k = (case stored ini n k of None \<Rightarrow> ('''', False) | Some v \<Rightarrow> (v, True))"
  by (simp add: SectionGet_def stored_def split: option.splits)

lemma stored_section: "stored a n k = Some v \<Longrightarrow> \<exists>kv. map_of (sections a) n = Some kv"
  by (simp add: stored_def split: option.splits)

lemma in_diffSectionA_stored:
  assumes "map_of (sections a) n = Some kv" and "distinct (map fst kv)"
  shows "r \<in> set (diffSectionA b (n, kv)) \<longleftrightarrow>
    (GetKvmap b n = None \<and>
       r = \<lparr>State = DIFF_SECTION_ONLY_IN_A, Section = n, Key = '''', AVal = '''', BVal = ''''\<rparr>) \<or>
    (\<exists>k v. stored a n k = Some v \<and> GetKvmap b n \<noteq> None \<and> stored b n k = None \<and>
       r = \<lparr>State = DIFF_KEY_ONLY_IN_A, Section = n, Key = k, AVal = v, BVal = ''''\<rparr>) \<or>
    (\<exists>k v v'. stored a n k = Some v \<and> stored b n k = Some v' \<and> v \<noteq> v' \<and>
       r = \<lparr>State = DIFF_VALUES_DIFFER, Section = n, Key = k, AVal = v, BVal = v'\<rparr>)"
proof -
  have s: "stored a n k = map_of kv k" for k
    using assms(1) by (simp add: stored_def)
  have m: "(k, v) \<in> set kv \<longleftrightarrow> map_of kv k = Some v" for k v
    using assms(2) by simp
  show ?thesis
  proof (cases "map_of (sections b) n")
    case None
    then show ?thesis
      by (simp add: in_diffSectionA GetKvmap_def stored_def)
  next
    case (Some kv')
    then have "stored b n k = map_of kv' k" for k
      by (simp add: stored_def)
    with Some show ?thesis
      by (simp add: in_diffSectionA GetKvmap_def s m del: map_of_eq_Some_iff) blast
  qed
qed

lemma in_diffSectionB_stored:
  assumes "map_of (sections b) n = Some kv" and "distinct (map fst kv)"
  shows "r \<in> set (diffSectionB a (n, kv)) \<longleftrightarrow>
    (GetKvmap a n = None \<and>
       r = \<lparr>State = DIFF_SECTION_ONLY_IN_B, Section = n, Key = '''', AVal = '''', BVal = ''''\<rparr>) \<or>
    (\<exists>k v. stored b n k = Some v \<and> GetKvmap a n \<noteq> None \<and> stored a n k = None \<and>
       r = \<lparr>State = DIFF_KEY_ONLY_IN_B, Section = n, Key = k, AVal = '''', BVal = v\<rparr>)"
proof -
  have s: "stored b n k = map_of kv k" for k
    using assms(1) by (simp add: stored_def)
  have m: "(k, v) \<in> set kv \<longleftrightarrow> map_of kv k = Some v" for k v
    using assms(2) by simp
  show ?thesis
  proof (cases "map_of (sections a) n")
    case None
    then show ?thesis
      by (simp add: in_diffSectionB GetKvmap_def stored_def)
  next
    case (Some kv')
    then have "stored a n k = map_of kv' k" for k
      by (simp add: stored_def)
    with Some show ?thesis
      by (simp add: in_diffSectionB GetKvmap_def s m del: map_of_eq_Some_iff)
  qed
qed

lemma in_DiffINI:
  assumes "wfSections (sections a)" and "wfSections (sections b)"
  shows "r \<in> set (DiffINI a b) \<longleftrightarrow>
    (\<exists>n. GetKvmap a n \<noteq> None \<and> GetKvmap b n = None \<and>
       r = \<lparr>State = DIFF_SECTION_ONLY_IN_A, Section = n, Key = '''', AVal = '''', BVal = ''''\<rparr>) \<or>
    (\<exists>n k v. stored a n k = Some v \<and> GetKvmap b n \<noteq> None \<and> stored b n k = None \<and>
       r = \<lparr>State = DIFF_KEY_ONLY_IN_A, Section = n, Key = k, AVal = v, BVal = ''''\<rparr>) \<or>
    (\<exists>n k v v'. stored a n k = Some v \<and> stored b n k = Some v' \<and> v \<noteq> v' \<and>
       r = \<lparr>State = DIFF_VALUES_DIFFER, Section = n, Key = k, AVal = v, BVal = v'\<rparr>) \<or>
    (\<exists>n. GetKvmap b n \<noteq> None \<and> GetKvmap a n = None \<and>
       r = \<lparr>State = DIFF_SECTION_ONLY_IN_B, Section = n, Key = '''', AVal = '''', BVal = ''''\<rparr>) \<or>
    (\<exists>n k v. stored b n k = Some v \<and> GetKvmap a n \<noteq> None \<and> stored a n k = None \<and>
       r = \<lparr>State = DIFF_KEY_ONLY_IN_B, Section = n, Key = k, AVal = '''', BVal = v\<rparr>)"
    (is "?L \<longleftrightarrow> ?A0 \<or> ?A1 \<or> ?A2 \<or> ?B0 \<or> ?B1")
proof -
  have "?L \<longleftrightarrow> (\<exists>n kv. (n, kv) \<in> set (sections a) \<and> r \<in> set (diffSectionA b (n, kv))) \<or>
      (\<exists>n kv. (n, kv) \<in> set (sections b) \<and> r \<in> set (diffSectionB a (n, kv)))"
    (is "_ \<longleftrightarrow> ?PA \<or> ?PB")
    by (auto simp: DiffINI_def)
  moreover have "?PA \<longleftrightarrow> ?A0 \<or> ?A1 \<or> ?A2"
  proof
    assume ?PA
    then obtain n kv where m: "(n, kv) \<in> set (sections a)"
      and r: "r \<in> set (diffSectionA b (n, kv))" by blast
    from m assms(1) have l: "map_of (sections a) n = Some kv" and d: "distinct (map fst kv)"
      by (auto dest: wfSections_lookup)
    from l have "GetKvmap a n \<noteq> None" by (simp add: GetKvmap_def)
    with r show "?A0 \<or> ?A1 \<or> ?A2"
      unfolding in_diffSectionA_stored [OF l d] by blast
  next
    assume "?A0 \<or> ?A1 \<or> ?A2"
    then obtain n where n: "GetKvmap a n \<noteq> None"
      and c: "(GetKvmap b n = None \<and>
       r = \<lparr>State = DIFF_SECTION_ONLY_IN_A, Section = n, Key = '''', AVal = '''', BVal = ''''\<rparr>) \<or>
    (\<exists>k v. stored a n k = Some v \<and> GetKvmap b n \<noteq> None \<and> stored b n k = None \<and>
       r = \<lparr>State = DIFF_KEY_ONLY_IN_A, Section = n, Key = k, AVal = v, BVal = ''''\<rparr>) \<or>
    (\<exists>k v v'. stored a n k = Some v \<and> stored b n k = Some v' \<and> v \<noteq> v' \<and>
       r = \<lparr>State = DIFF_VALUES_DIFFER, Section = n, Key = k, AVal = v, BVal = v'\<rparr>)"
      using stored_section [of a] unfolding GetKvmap_def by blast
    from n obtain kv where l: "map_of (sections a) n = Some kv"
      by (auto simp: GetKvmap_def)
    with assms(1) have d: "distinct (map fst kv)" by (rule wfSections_kvmap)
    from c have "r \<in> set (diffSectionA b (n, kv))"
      unfolding in_diffSectionA_stored [OF l d] .
    with l show ?PA by (blast dest: map_of_SomeD)
  qed
  moreover have "?PB \<longleftrightarrow> ?B0 \<or> ?B1"
  proof
    assume ?PB
    then obtain n kv where m: "(n, kv) \<in> set (sections b)"
      and r: "r \<in> set (diffSectionB a (n, kv))" by blast
    from m assms(2) have l: "map_of (sections b) n = Some kv" and d: "distinct (map fst kv)"
      by (auto dest: wfSections_lookup)
    from l have "GetKvmap b n \<noteq> None" by (simp add: GetKvmap_def)
    with r show "?B0 \<or> ?B1"
      unfolding in_diffSectionB_stored [OF l d] by blast
  next
    assume "?B0 \<or> ?B1"
    then obtain n where n: "GetKvmap b n \<noteq> None"
      and c: "(GetKvmap a n = None \<and>
       r = \<lparr>State = DIFF_SECTION_ONLY_IN_B, Section = n, Key = '''', AVal = '''', BVal = ''''\<rparr>) \<or>
    (\<exists>k v. stored b n k = Some v \<and> GetKvmap a n \<noteq> None \<and> stored a n k = None \<and>
       r = \<lparr>State = DIFF_KEY_ONLY_IN_B, Section = n, Key = k, AVal = '''', BVal = v\<rparr>)"
      using stored_section [of b] unfolding GetKvmap_def by blast
    from n obtain kv where l: "map_of (sections b) n = Some kv"
      by (auto simp: GetKvmap_def)
    with assms(2) have d: "distinct (map fst kv)" by (rule wfSections_kvmap)
    from c have "r \<in> set (diffSectionB a (n, kv))"
      unfolding in_diffSectionB_stored [OF l d] .
    with l show ?PB by (blast dest: map_of_SomeD)
  qed
  ultimately show ?thesis by blast
qed

lemma swapAB_in_DiffINI:
  assumes "wfSections (sections a)" and "wfSections (sections b)" and "r \<in> set (DiffINI a b)"
  shows "swapAB r \<in> set (DiffINI b a)"
proof -
  note R = in_DiffINI [OF assms(1,2), of r]
  note S = in_DiffINI [OF assms(2,1), of "swapAB r"]
  from assms(3) R consider
      (A0) n where "GetKvmap a n \<noteq> None" "GetKvmap b n = None"
        "r = \<lparr>State = DIFF_SECTION_ONLY_IN_A, Section = n, Key = '''', AVal = '''', BVal = ''''\<rparr>"
    | (A1) n k v where "stored a n k = Some v" "GetKvmap b n \<noteq> None" "stored b n k = None"
        "r = \<lparr>State = DIFF_KEY_ONLY_IN_A, Section = n, Key = k, AVal = v, BVal = ''''\<rparr>"
    | (A2) n k v v' where "stored a n k = Some v" "stored b n k = Some v'" "v \<noteq> v'"
        "r = \<lparr>State = DIFF_VALUES_DIFFER, Section = n, Key = k, AVal = v, BVal = v'\<rparr>"
    | (B0) n where "GetKvmap b n \<noteq> None" "GetKvmap a n = None"
        "r = \<lparr>State = DIFF_SECTION_ONLY_IN_B, Section = n, Key = '''', AVal = '''', BVal = ''''\<rparr>"
    | (B1) n k v where "stored b n k = Some v" "GetKvmap a n \<noteq> None" "stored a n k = None"
        "r = \<lparr>State = DIFF_KEY_ONLY_IN_B, Section = n, Key = k, AVal = '''', BVal = v\<rparr>"
    by blast
  then show ?thesis
  proof cases
    case A0
    then have "swapAB r =
        \<lparr>State = DIFF_SECTION_ONLY_IN_B, Section = n, Key = '''', AVal = '''', BVal = ''''\<rparr>"
      by (simp add: swapAB_def swapState_def DIFF_defs)
    with A0 show ?thesis unfolding S by blast
  next
    case A1
    then have "swapAB r =
        \<lparr>State = DIFF_KEY_ONLY_IN_B, Section = n, Key = k, AVal = '''', BVal = v\<rparr>"
      by (simp add: swapAB_def swapState_def DIFF_defs)
    with A1 show ?thesis unfolding S by blast
  next
    case A2
    then have "swapAB r =
        \<lparr>State = DIFF_VALUES_DIFFER, Section = n, Key = k, AVal = v', BVal = v\<rparr>"
      by (simp add: swapAB_def swapState_def DIFF_defs)
    with A2 show ?thesis unfolding S by blast
  next
    case B0
    then have "swapAB r =
        \<lparr>State = DIFF_SECTION_ONLY_IN_A, Section = n, Key = '''', AVal = '''', BVal = ''''\<rparr>"
      by (simp add: swapAB_def swapState_def DIFF_defs)
    with B0 show ?thesis unfolding S by blast
  next
    case B1
    then have "swapAB r =
        \<lparr>State = DIFF_KEY_ONLY_IN_A, Section = n, Key = k, AVal = v, BVal = ''''\<rparr>"
      by (simp add: swapAB_def swapState_def DIFF_defs)
    with B1 show ?thesis unfolding S by blast
  qed
qed

lemma set_DiffINI_swap:
  assumes "wfSections (sections a)" and "wfSections (sections b)"
  shows "set (DiffINI b a) = swapAB ` set (DiffINI a b)"
proof
  show "set (DiffINI b a) \<subseteq> swapAB ` set (DiffINI a b)"
  proof
    fix r assume "r \<in> set (DiffINI b a)"
    with assms have "swapAB r \<in> set (DiffINI a b)" by (simp add: swapAB_in_DiffINI)
    then have "swapAB (swapAB r) \<in> swapAB ` set (DiffINI a b)" by (rule imageI)
    then show "r \<in> swapAB ` set (DiffINI a b)" by simp
  qed
next
  show "swapAB ` set (DiffINI a b) \<subseteq> set (DiffINI b a)"
    using assms by (auto simp: swapAB_in_DiffINI)
qed

lemma distinct_concat_map_keyed:
  assumes "distinct (map fst xs)"
    and "\<And>x. x \<in> set xs \<Longrightarrow> distinct (f x)"
    and "\<And>x r. x \<in> set xs \<Longrightarrow> r \<in> set (f x) \<Longrightarrow> g r = fst x"
  shows "distinct (concat (map f xs))"
  using assms
proof (induction xs)
  case Nil
  then show ?case by simp
next
  case (Cons x xs)
  have "set (f x) \<inter> set (concat (map f xs)) = {}"
  proof (rule ccontr)
    assume "set (f x) \<inter> set (concat (map f xs)) \<noteq> {}"
    then obtain r y where "r \<in> set (f x)" "y \<in> set xs" "r \<in> set (f y)" by auto
    with Cons.prems(3) have "fst x = fst y" by (metis list.set_intros(1,2))
    with \<open>y \<in> set xs\<close> Cons.prems(1) show False by auto
  qed
  moreover have "distinct (concat (map f xs))"
    using Cons by simp
  ultimately show ?case using Cons.prems(2) by simp
qed

lemma distinct_diffSectionA:
  assumes "distinct (map fst kv)"
  shows "distinct (diffSectionA b (n, kv))"
proof (cases "map_of (sections b) n")
  case None
  then show ?thesis by (simp add: diffSectionA_def)
next
  case (Some kv')
  have "distinct (concat (map (\<lambda>(akey, aval).
            (case map_of kv' akey of
               None \<Rightarrow>
                 [\<lparr>State = DIFF_KEY_ONLY_IN_A, Section = n, Key = akey, AVal = aval,
                   BVal = ''''\<rparr>]
             | Some bval \<Rightarrow>
                 if aval \<noteq> bval then
                   [\<lparr>State = DIFF_VALUES_DIFFER, Section = n, Key = akey, AVal = aval,
                     BVal = bval\<rparr>]
                 else [])) kv))"
    using assms
    by (rule distinct_concat_map_keyed [where g = Key]) (auto split: option.splits if_splits)
  with Some show ?thesis by (simp add: diffSectionA_def)
qed

lemma distinct_diffSectionB:
  assumes "distinct (map fst kv)"
  shows "distinct (diffSectionB a (n, kv))"
proof (cases "map_of (sections a) n")
  case None
  then show ?thesis by (simp add: diffSectionB_def)
next
  case (Some kv')
  have "distinct (concat (map (\<lambda>(bkey, bval).
            (case map_of kv' bkey of
               None \<Rightarrow>
                 [\<lparr>State = DIFF_KEY_ONLY_IN_B, Section = n, Key = bkey, AVal = '''',
                   BVal = bval\<rparr>]
             | Some aval \<Rightarrow> [])) kv))"
    using assms
    by (rule distinct_concat_map_keyed [where g = Key]) (auto split: option.splits if_splits)
  with Some show ?thesis by (simp add: diffSectionB_def)
qed

lemma Section_diffSectionA: "r \<in> set (diffSectionA b (n, kv)) \<Longrightarrow> Section r = n"
  unfolding in_diffSectionA by auto

lemma Section_diffSectionB: "r \<in> set (diffSectionB a (n, kv)) \<Longrightarrow> Section r = n"
  unfolding in_diffSectionB by auto

lemma State_diffSectionA:
  "r \<in> set (diffSectionA b (n, kv)) \<Longrightarrow>
   State r \<in> {DIFF_SECTION_ONLY_IN_A, DIFF_KEY_ONLY_IN_A, DIFF_VALUES_DIFFER}"
  unfolding in_diffSectionA by auto

lemma State_diffSectionB:
  "r \<in> set (diffSectionB a (n, kv)) \<Longrightarrow> State r \<in> {DIFF_SECTION_ONLY_IN_B, DIFF_KEY_ONLY_IN_B}"
  unfolding in_diffSectionB by auto

lemma distinct_DiffINI:
  assumes "wfSections (sections a)" and "wfSections (sections b)"
  shows "distinct (DiffINI a b)"
proof -
  have 1: "distinct (concat (map (diffSectionA b) (sections a)))"
  proof (rule distinct_concat_map_keyed [where g = Section])
    show "distinct (map fst (sections a))"
      using assms(1) by (simp add: wfSections_def distinctKeys_def)
    show "distinct (diffSectionA b x)" if "x \<in> set (sections a)" for x
    proof -
      obtain n kv where x: "x = (n, kv)" by (cases x)
      with that assms(1) have "distinct (map fst kv)" by (auto dest: wfSections_lookup)
      with x show ?thesis by (simp add: distinct_diffSectionA)
    qed
    show "Section r = fst x" if "x \<in> set (sections a)" "r \<in> set (diffSectionA b x)" for x r
      using that(2) Section_diffSectionA [of r b "fst x" "snd x"] by simp
  qed
  have 2: "distinct (concat (map (diffSectionB a) (sections b)))"
  proof (rule distinct_concat_map_keyed [where g = Section])
    show "distinct (map fst (sections b))"
      using assms(2) by (simp add: wfSections_def distinctKeys_def)
    show "distinct (diffSectionB a x)" if "x \<in> set (sections b)" for x
    proof -
      obtain n kv where x: "x = (n, kv)" by (cases x)
      with that assms(2) have "distinct (map fst kv)" by (auto dest: wfSections_lookup)
      with x show ?thesis by (simp add: distinct_diffSectionB)
    qed
    show "Section r = fst x" if "x \<in> set (sections b)" "r \<in> set (diffSectionB a x)" for x r
      using that(2) Section_diffSectionB [of r a "fst x" "snd x"] by simp
  qed
  have 3: "set (concat (map (diffSectionA b) (sections a)))
      \<inter> set (concat (map (diffSectionB a) (sections b))) = {}"
  proof (rule ccontr)
    assume "\<not> ?thesis"
    then obtain r x y where "r \<in> set (diffSectionA b x)" "r \<in> set (diffSectionB a y)" by auto
    then have "State r \<in> {DIFF_SECTION_ONLY_IN_A, DIFF_KEY_ONLY_IN_A, DIFF_VALUES_DIFFER}"
      and "State r \<in> {DIFF_SECTION_ONLY_IN_B, DIFF_KEY_ONLY_IN_B}"
      using State_diffSectionA [of r b "fst x" "snd x"] State_diffSectionB [of r a "fst y" "snd y"]
      by simp_all
    then show False by (auto simp: DIFF_defs)
  qed
  from 1 2 3 show ?thesis by (simp add: DiffINI_def)
qed

lemma SectionGet_stored: "SectionGet ini n k = (v, True) \<longleftrightarrow> stored ini n k = Some v"
  by (auto simp: stored_SectionGet split: option.splits)

lemma stored_GetKvmap: "stored ini n k = Some v \<Longrightarrow> GetKvmap ini n \<noteq> None"
  by (auto simp: stored_def GetKvmap_def split: option.splits)

lemma mset_DiffINI_swap:
  assumes "wfSections (sections a)" and "wfSections (sections b)"
  shows "mset (DiffINI b a) = image_mset swapAB (mset (DiffINI a b))"
proof -
  have "inj_on swapAB (set (DiffINI a b))"
    by (rule inj_on_inverseI [where g = swapAB]) simp
  then have "image_mset swapAB (mset_set (set (DiffINI a b))) = mset_set (swapAB ` set (DiffINI a b))"
    by (rule image_mset_mset_set)
  also have "\<dots> = mset_set (set (DiffINI b a))"
    by (rule arg_cong [OF set_DiffINI_swap [OF assms, symmetric]])
  finally have "image_mset swapAB (mset_set (set (DiffINI a b))) = mset_set (set (DiffINI b a))" .
  moreover have "mset_set (set (DiffINI a b)) = mset (DiffINI a b)"
    using assms by (intro mset_set_set distinct_DiffINI)
  moreover have "mset_set (set (DiffINI b a)) = mset (DiffINI b a)"
    using assms by (intro mset_set_set distinct_DiffINI)
  ultimately show ?thesis by simp
qed

lemma filter_eq_singleton:
  assumes "distinct xs" and "r \<in> set xs" and "P r" and "\<And>x. x \<in> set xs \<Longrightarrow> P x \<Longrightarrow> x = r"
  shows "filter P xs = [r]"
  using assms
proof (induction xs)
  case Nil
  then show ?case by simp
next
  case (Cons x xs)
  show ?case
  proof (cases "x = r")
    case True
    with Cons.prems(1) have "r \<notin> set xs" by simp
    with Cons.prems(4) have "\<forall>y \<in> set xs. \<not> P y" by auto
    then have "filter P xs = []" by (simp add: filter_empty_conv)
    with True Cons.prems(3) show ?thesis by simp
  next
    case False
    with Cons.prems(4) have "\<not> P x" by auto
    moreover have "filter P xs = [r]"
    proof (rule Cons.IH)
      show "distinct xs" using Cons.prems(1) by simp
      show "r \<in> set xs" using False Cons.prems(2) by simp
      show "P r" by (rule Cons.prems(3))
      show "x = r" if "x \<in> set xs" "P x" for x
        using that Cons.prems(4) by simp
    qed
    ultimately show ?thesis by simp
  qed
qed

lemma values_differ_once:
  assumes "wfSections (sections A)" and "wfSections (sections B)"
    and a: "stored A n k = Some va" and b: "stored B n k = Some vb" and ne: "va \<noteq> vb"
  shows "filter (\<lambda>r. State r = DIFF_VALUES_DIFFER \<and> Section r = n \<and> Key r = k) (DiffINI A B)
         = [\<lparr>State = DIFF_VALUES_DIFFER, Section = n, Key = k, AVal = va, BVal = vb\<rparr>]"
proof (rule filter_eq_singleton)
  note R = in_DiffINI [OF assms(1,2)]
  show "distinct (DiffINI A B)" using assms(1,2) by (rule distinct_DiffINI)
  show "\<lparr>State = DIFF_VALUES_DIFFER, Section = n, Key = k, AVal = va, BVal = vb\<rparr>
      \<in> set (DiffINI A B)"
    unfolding R using a b ne by blast
  show "State \<lparr>State = DIFF_VALUES_DIFFER, Section = n, Key = k, AVal = va, BVal = vb\<rparr>
      = DIFF_VALUES_DIFFER \<and>
    Section \<lparr>State = DIFF_VALUES_DIFFER, Section = n, Key = k, AVal = va, BVal = vb\<rparr> = n \<and>
    Key \<lparr>State = DIFF_VALUES_DIFFER, Section = n, Key = k, AVal = va, BVal = vb\<rparr> = k"
    by simp
  fix x
  assume "x \<in> set (DiffINI A B)"
    and "State x = DIFF_VALUES_DIFFER \<and> Section x = n \<and> Key x = k"
  then show "x = \<lparr>State = DIFF_VALUES_DIFFER, Section = n, Key = k, AVal = va, BVal = vb\<rparr>"
    using a b unfolding R by (elim disjE exE conjE) (simp_all add: DIFF_defs)
qed

lemma no_values_differ_in_second_pass:
  "filter (\<lambda>r. State r = DIFF_VALUES_DIFFER) (concat (map (diffSectionB A) (sections B))) = []"
proof -
  have "State r \<noteq> DIFF_VALUES_DIFFER"
    if "r \<in> set (concat (map (diffSectionB A) (sections B)))" for r
  proof -
    from that obtain y where "r \<in> set (diffSectionB A y)" by auto
    then show ?thesis
      using State_diffSectionB [of r A "fst y" "snd y"] by (auto simp: DIFF_defs)
  qed
  then show ?thesis by (simp add: filter_empty_conv)
qed

lemma equal_values_no_record:
  assumes "wfSections (sections A)" and "wfSections (sections B)"
    and a: "stored A n k = Some v" and b: "stored B n k = Some v"
  shows "filter (\<lambda>r. Section r = n \<and> Key r = k) (DiffINI A B) = []"
proof -
  note R = in_DiffINI [OF assms(1,2)]
  have "\<not> (Section r = n \<and> Key r = k)" if "r \<in> set (DiffINI A B)" for r
    using that a b stored_GetKvmap [OF a] stored_GetKvmap [OF b] unfolding R
    by (elim disjE exE conjE) auto
  then show ?thesis by (simp add: filter_empty_conv)
qed

text \<open>
  Claim C5. For well-formed stores \<open>A\<close> and \<open>B\<close>, \<open>DiffINI B A\<close> holds, up to the
  order of the list, exactly the records of \<open>DiffINI A B\<close> with the kinds -in-A and
  -in-B exchanged (and with them the two value fields). For a key that both stores hold
  in the same section with different values, \<open>DiffINI A B\<close> has exactly one
  value-mismatch record, with the value of \<open>A\<close> and the value of \<open>B\<close>; the second pass
  emits no value-mismatch record at all, so that record comes from the first pass. For
  a key that both stores hold in the same section with the same value, \<open>DiffINI A B\<close>
  has no record for that section and key.
\<close>

theorem DiffINI_antisymmetric:
  assumes "wfSections (sections A)" and "wfSections (sections B)"
  shows "mset (DiffINI B A) = image_mset swapAB (mset (DiffINI A B)) \<and>
    (SectionGet A n k = (va, True) \<and> SectionGet B n k = (vb, True) \<and> va \<noteq> vb \<longrightarrow>
       filter (\<lambda>r. State r = DIFF_VALUES_DIFFER \<and> Section r = n \<and> Key r = k) (DiffINI A B)
         = [\<lparr>State = DIFF_VALUES_DIFFER, Section = n, Key = k, AVal = va, BVal = vb\<rparr>]) \<and>
    filter (\<lambda>r. State r = DIFF_VALUES_DIFFER) (concat (map (diffSectionB A) (sections B))) = [] \<and>
    (SectionGet A n k = (v, True) \<and> SectionGet B n k = (v, True) \<longrightarrow>
       filter (\<lambda>r. Section r = n \<and> Key r = k) (DiffINI A B) = [])"
  using mset_DiffINI_swap [OF assms] values_differ_once [OF assms]
    no_values_differ_in_second_pass equal_values_no_record [OF assms]
  by (simp add: SectionGet_stored)

theorem DiffINI_antisymmetric_witness:
  "mset (DiffINI (New\<lparr>sections := [('''', [(''a'', ''2''), (''c'', ''3''), (''d'', ''4'')]), (''t'', [])]\<rparr>)
           (New\<lparr>sections := [('''', [(''a'', ''1''), (''c'', ''3'')]), (''s'', [(''x'', ''1'')])]\<rparr>))
     = image_mset swapAB
        (mset (DiffINI (New\<lparr>sections := [('''', [(''a'', ''1''), (''c'', ''3'')]), (''s'', [(''x'', ''1'')])]\<rparr>)
           (New\<lparr>sections := [('''', [(''a'', ''2''), (''c'', ''3''), (''d'', ''4'')]), (''t'', [])]\<rparr>))) \<and>
   filter (\<lambda>r. State r = DIFF_VALUES_DIFFER \<and> Section r = '''' \<and> Key r = ''a'')
       (DiffINI (New\<lparr>sections := [('''', [(''a'', ''1''), (''c'', ''3'')]), (''s'', [(''x'', ''1'')])]\<rparr>)
           (New\<lparr>sections := [('''', [(''a'', ''2''), (''c'', ''3''), (''d'', ''4'')]), (''t'', [])]\<rparr>))
     = [\<lparr>State = DIFF_VALUES_DIFFER, Section = '''', Key = ''a'', AVal = ''1'', BVal = ''2''\<rparr>] \<and>
   filter (\<lambda>r. Section r = '''' \<and> Key r = ''c'')
       (DiffINI (New\<lparr>sections := [('''', [(''a'', ''1''), (''c'', ''3'')]), (''s'', [(''x'', ''1'')])]\<rparr>)
           (New\<lparr>sections := [('''', [(''a'', ''2''), (''c'', ''3''), (''d'', ''4'')]), (''t'', [])]\<rparr>))
     = []"
proof -
  let ?A = "New\<lparr>sections := [('''', [(''a'', ''1''), (''c'', ''3'')]), (''s'', [(''x'', ''1'')])]\<rparr>"
  let ?B = "New\<lparr>sections := [('''', [(''a'', ''2''), (''c'', ''3''), (''d'', ''4'')]), (''t'', [])]\<rparr>"
  have a: "wfSections (sections ?A)" and b: "wfSections (sections ?B)"
    by (simp_all add: wfSections_def distinctKeys_def)
  have g: "SectionGet ?A '''' ''a'' = (''1'', True)" "SectionGet ?B '''' ''a'' = (''2'', True)"
    "SectionGet ?A '''' ''c'' = (''3'', True)" "SectionGet ?B '''' ''c'' = (''3'', True)"
    by (simp_all add: SectionGet_def)
  show ?thesis
    using DiffINI_antisymmetric [OF a b, where n = "''''" and k = "''a''" and va = "''1''"
        and vb = "''2''"]
      DiffINI_antisymmetric [OF a b, where n = "''''" and k = "''c''" and v = "''3''"] g
    by simp
qed

text \<open>The two lists of the stores above, in the order this model visits the maps.\<close>

lemma DiffINI_example:
  "DiffINI (New\<lparr>sections := [('''', [(''a'', ''1''), (''c'', ''3'')]), (''s'', [(''x'', ''1'')])]\<rparr>)
           (New\<lparr>sections := [('''', [(''a'', ''2''), (''c'', ''3''), (''d'', ''4'')]), (''t'', [])]\<rparr>)
   = [\<lparr>State = 2, Section = '''', Key = ''a'', AVal = ''1'', BVal = ''2''\<rparr>,
      \<lparr>State = 0, Section = ''s'', Key = '''', AVal = '''', BVal = ''''\<rparr>,
      \<lparr>State = 4, Section = '''', Key = ''d'', AVal = '''', BVal = ''4''\<rparr>,
      \<lparr>State = 3, Section = ''t'', Key = '''', AVal = '''', BVal = ''''\<rparr>]"
  "DiffINI (New\<lparr>sections := [('''', [(''a'', ''2''), (''c'', ''3''), (''d'', ''4'')]), (''t'', [])]\<rparr>)
           (New\<lparr>sections := [('''', [(''a'', ''1''), (''c'', ''3'')]), (''s'', [(''x'', ''1'')])]\<rparr>)
   = [\<lparr>State = 2, Section = '''', Key = ''a'', AVal = ''2'', BVal = ''1''\<rparr>,
      \<lparr>State = 1, Section = '''', Key = ''d'', AVal = ''4'', BVal = ''''\<rparr>,
      \<lparr>State = 0, Section = ''t'', Key = '''', AVal = '''', BVal = ''''\<rparr>,
      \<lparr>State = 3, Section = ''s'', Key = '''', AVal = '''', BVal = ''''\<rparr>]"
  by code_simp+

section \<open>Write and parse\<close>

subsection \<open>Splitting what Write has written\<close>

lemma Index_empty_sep [simp]: "Index s [] = 0"
  by (cases s) simp_all

lemma prefix_append_long:
  assumes "length xs \<le> length ys"
  shows "prefix xs (ys @ zs) = prefix xs ys"
proof
  assume "prefix xs (ys @ zs)"
  then consider "prefix xs ys" | us where "xs = ys @ us"
    by (auto simp: prefix_append)
  then show "prefix xs ys"
    using assms by cases auto
next
  assume "prefix xs ys"
  then show "prefix xs (ys @ zs)" by (rule prefix_prefix)
qed

lemma Index_terminated_append:
  "Index (l @ ls) ls = int (length l) \<Longrightarrow> Index (l @ ls @ rest) ls = int (length l)"
proof (induction l)
  case Nil
  then show ?case by (cases ls) auto
next
  case (Cons c t)
  have np: "\<not> prefix ls (c # t @ ls)"
    using Cons.prems by (auto split: if_splits)
  then have i: "Index (t @ ls) ls = int (length t)"
    using Cons.prems by (auto simp: Let_def split: if_splits)
  have "length ls \<le> length (c # t @ ls)" by simp
  then have "prefix ls ((c # t @ ls) @ rest) = prefix ls (c # t @ ls)"
    by (rule prefix_append_long)
  with np have "\<not> prefix ls (c # t @ ls @ rest)" by simp
  with Cons.IH [OF i] show ?case by (simp add: Let_def)
qed

lemma genSplit_terminated:
  assumes "ls \<noteq> []" and "terminated ls l"
  shows "genSplit (l @ ls @ rest) ls = l # genSplit rest ls"
proof -
  have "Index (l @ ls @ rest) ls = int (length l)"
    using assms(2) unfolding terminated_def by (rule Index_terminated_append)
  then show ?thesis
    using assms(1) by (subst genSplit.simps) (simp add: Let_def)
qed

lemma genSplit_Nil: "ls \<noteq> [] \<Longrightarrow> genSplit [] ls = [[]]"
  by (subst genSplit.simps) simp

lemma Split_terminated_lines:
  assumes "ls \<noteq> []" and "\<forall>l \<in> set xs. terminated ls l"
  shows "Split (concat (map (\<lambda>l. l @ ls) xs)) ls = xs @ [[]]"
proof -
  have "genSplit (concat (map (\<lambda>l. l @ ls) xs)) ls = xs @ [[]]"
    using assms(2)
  proof (induction xs)
    case Nil
    then show ?case using assms(1) by (simp add: genSplit_Nil)
  next
    case (Cons l xs)
    then show ?case using assms(1) by (simp add: genSplit_terminated)
  qed
  with assms(1) show ?thesis by (simp add: Split_def)
qed

lemma terminated_single: "c \<notin> set l \<Longrightarrow> terminated [c] l"
  unfolding terminated_def by (induction l) auto

lemma Index_single: "c \<notin> set k \<Longrightarrow> Index (k @ c # v) [c] = int (length k)"
  by (induction k) auto

lemma write'_lines:
  "write' ini kv = concat (map (\<lambda>l. l @ lineSep ini) (map (pairLine ini) kv))"
  by (induction kv) (auto simp: write'_def pairLine_def)

lemma Write_lines: "Write ini = concat (map (\<lambda>l. l @ lineSep ini) (writtenLines ini))"
proof -
  have "concat (map (\<lambda>(section, kv).
                 if section = DefaultSection then []
                 else ''['' @ section @ '']'' @ lineSep ini @ write' ini kv) ss)
      = concat (map (\<lambda>l. l @ lineSep ini) (concat (map (\<lambda>(n, kv).
                 if n = DefaultSection then [] else headerLine n # map (pairLine ini) kv) ss)))"
    for ss
    by (induction ss) (auto simp: write'_lines headerLine_def)
  then show ?thesis
    by (simp add: Write_def writtenLines_def write'_lines split: option.splits)
qed

lemma suffix_last: "suffix w s \<Longrightarrow> w \<noteq> [] \<Longrightarrow> last s = last w"
  by (auto simp: suffix_def)

lemma TrimLeftSpace_id: "leadingSpace s = 0 \<Longrightarrow> TrimLeftSpace s = s"
  by (subst TrimLeftSpace.simps) simp

lemma TrimRightSpace_id: "trailingSpace s = 0 \<Longrightarrow> TrimRightSpace s = s"
  by (subst TrimRightSpace.simps) simp

lemma TrimSpace_Nil [simp]: "TrimSpace [] = []"
  by (simp add: TrimSpace_def TrimLeftSpace_id TrimRightSpace_id leadingSpace_def
      trailingSpace_def spaceRunes_def)

lemma leadingSpace_bracket: "leadingSpace (CHR ''['' # s) = 0"
  by (simp add: leadingSpace_def spaceRunes_def)

lemma trailingSpace_bracket: "trailingSpace (s @ [CHR '']'']) = 0"
proof -
  have "\<not> suffix w (s @ [CHR '']''])" if "w \<in> set spaceRunes" for w
  proof
    assume "suffix w (s @ [CHR '']''])"
    moreover from that have "w \<noteq> []" by (auto simp: spaceRunes_def)
    ultimately have "last w = CHR '']''" by (auto dest: suffix_last)
    with that show False by (auto simp: spaceRunes_def)
  qed
  then have "List.find (\<lambda>w. suffix w (s @ [CHR '']''])) spaceRunes = None"
    by (auto simp: find_None_iff)
  then show ?thesis by (simp add: trailingSpace_def)
qed

lemma TrimSpace_headerLine: "TrimSpace (headerLine n) = headerLine n"
proof -
  have "TrimLeftSpace (headerLine n) = headerLine n"
    by (simp add: headerLine_def TrimLeftSpace_id leadingSpace_bracket)
  moreover have "TrimRightSpace (headerLine n) = headerLine n"
    using trailingSpace_bracket [of "CHR ''['' # n"]
    by (simp add: headerLine_def TrimRightSpace_id)
  ultimately show ?thesis by (simp add: TrimSpace_def)
qed

lemma parseLine_headerLine:
  assumes "parseSection ini"
  shows "parseLine ini ks st (headerLine n) =
    Inr \<lparr>secs = AList.update n [] (secs st), section' = n, kvmap = []\<rparr>"
proof -
  let ?t = "CHR ''['' # n @ [CHR '']'']"
  have t: "TrimSpace (headerLine n) = ?t"
    by (simp add: TrimSpace_headerLine) (simp add: headerLine_def)
  have "\<not> isComment ini ?t" and "isHeader ini ?t"
    using assms by (simp_all add: isComment_def isHeader_def)
  with t show ?thesis
    by (simp add: parseLine_header)
qed

subsection \<open>Reading the written lines back\<close>

lemma parseLine_pairLine:
  assumes "kvSep S \<noteq> []" and "pairReadable P S (k, v)"
  shows "parseLine (P\<lparr>lineSep := ls, kvSep := kvSep S\<rparr>) (kvSep S) st (pairLine S (k, v))
    = Inr (kvmapAssign st k v)"
proof -
  let ?l = "k @ kvSep S @ v"
  let ?P = "P\<lparr>lineSep := ls, kvSep := kvSep S\<rparr>"
  from assms(2) have t: "TrimSpace ?l = ?l" and k: "TrimSpace k = k" and v: "TrimSpace v = v"
    and c: "\<not> isComment ?P ?l" and h: "\<not> isHeader ?P ?l"
    and i: "Index ?l (kvSep S) = int (length k)"
    and q: "trimQuotes P \<longrightarrow> Trim v [CHR 0x27, CHR 0x22] = v"
    by (simp_all add: pairReadable_def Let_def isHeader_def)
  from assms(1) have n: "?l \<noteq> []" by simp
  from i have 0: "0 \<le> Index ?l (kvSep S)" by simp
  have pk: "pairKey (kvSep S) ?l = k"
    using i k by (simp add: pairKey_def)
  have pv: "pairValue ?P (kvSep S) ?l = v"
    using i v q by (simp add: pairValue_def)
  show ?thesis
    using parseLine_pair [OF t n c h 0, of st] pk pv by (simp add: pairLine_def)
qed

lemma update_fresh: "k \<notin> fst ` set al \<Longrightarrow> AList.update k v al = al @ [(k, v)]"
  by (induction al) auto

lemma update_last_entry: "n \<notin> fst ` set pre \<Longrightarrow> AList.update n x (pre @ [(n, y)]) = pre @ [(n, x)]"
  by (induction pre) auto

lemma parseLines_pairs:
  assumes "kvSep S \<noteq> []" and "list_all (pairReadable P S) kv"
    and "distinct (map fst (acc @ kv))" and "n \<notin> fst ` set pre"
  shows "parseLines (P\<lparr>lineSep := ls, kvSep := kvSep S\<rparr>) (kvSep S)
      \<lparr>secs = pre @ [(n, acc)], section' = n, kvmap = acc\<rparr> (map (pairLine S) kv @ rest)
    = parseLines (P\<lparr>lineSep := ls, kvSep := kvSep S\<rparr>) (kvSep S)
      \<lparr>secs = pre @ [(n, acc @ kv)], section' = n, kvmap = acc @ kv\<rparr> rest"
  using assms(2,3)
proof (induction kv arbitrary: acc)
  case Nil
  then show ?case by simp
next
  case (Cons p kv)
  obtain k v where p: "p = (k, v)" by (cases p)
  from Cons.prems(1) p have r: "pairReadable P S (k, v)" and rs: "list_all (pairReadable P S) kv"
    by simp_all
  from Cons.prems(2) p have f: "k \<notin> fst ` set acc" and d: "distinct (map fst ((acc @ [(k, v)]) @ kv))"
    by auto
  have "kvmapAssign \<lparr>secs = pre @ [(n, acc)], section' = n, kvmap = acc\<rparr> k v
      = \<lparr>secs = pre @ [(n, acc @ [(k, v)])], section' = n, kvmap = acc @ [(k, v)]\<rparr>"
    using f assms(4) by (simp add: kvmapAssign_def Let_def update_fresh update_last_entry)
  then have "parseLine (P\<lparr>lineSep := ls, kvSep := kvSep S\<rparr>) (kvSep S)
      \<lparr>secs = pre @ [(n, acc)], section' = n, kvmap = acc\<rparr> (pairLine S (k, v))
    = Inr \<lparr>secs = pre @ [(n, acc @ [(k, v)])], section' = n, kvmap = acc @ [(k, v)]\<rparr>"
    using parseLine_pairLine [OF assms(1) r] by simp
  then show ?case
    using Cons.IH [OF rs d] p by simp
qed

lemma parseLines_sections:
  assumes "kvSep S \<noteq> []" and "parseSection P"
  shows "list_all (\<lambda>(n, kv). list_all (pairReadable P S) kv) ss \<Longrightarrow>
    distinct (map fst ss) \<Longrightarrow>
    list_all (\<lambda>(n, kv). distinct (map fst kv)) ss \<Longrightarrow>
    fst ` set (filter (\<lambda>(n, kv). n \<noteq> DefaultSection) ss) \<inter> fst ` set pre = {} \<Longrightarrow>
    \<exists>c m. parseLines (P\<lparr>lineSep := ls, kvSep := kvSep S\<rparr>) (kvSep S)
        \<lparr>secs = pre, section' = c0, kvmap = m0\<rparr>
        (concat (map (\<lambda>(n, kv).
           if n = DefaultSection then [] else headerLine n # map (pairLine S) kv) ss) @ rest)
      = parseLines (P\<lparr>lineSep := ls, kvSep := kvSep S\<rparr>) (kvSep S)
        \<lparr>secs = pre @ filter (\<lambda>(n, kv). n \<noteq> DefaultSection) ss, section' = c, kvmap = m\<rparr> rest"
proof (induction ss arbitrary: pre c0 m0)
  case Nil
  then show ?case by auto
next
  case (Cons p ss)
  obtain n kv where p: "p = (n, kv)" by (cases p)
  let ?P = "P\<lparr>lineSep := ls, kvSep := kvSep S\<rparr>"
  from Cons.prems p have rs: "list_all (\<lambda>(n, kv). list_all (pairReadable P S) kv) ss"
    and r: "list_all (pairReadable P S) kv"
    and ds: "distinct (map fst ss)" and nn: "n \<notin> fst ` set ss"
    and ks: "list_all (\<lambda>(n, kv). distinct (map fst kv)) ss" and k: "distinct (map fst kv)"
    by auto
  show ?case
  proof (cases "n = DefaultSection")
    case True
    with Cons.prems(4) p
    have "fst ` set (filter (\<lambda>(n, kv). n \<noteq> DefaultSection) ss) \<inter> fst ` set pre = {}"
      by simp
    from Cons.IH [OF rs ds ks this, of c0 m0] True p show ?thesis by simp
  next
    case False
    with Cons.prems(4) p have fresh: "n \<notin> fst ` set pre"
      and rest': "fst ` set (filter (\<lambda>(n, kv). n \<noteq> DefaultSection) ss) \<inter> fst ` set pre = {}"
      by auto
    have disj: "fst ` set (filter (\<lambda>(n, kv). n \<noteq> DefaultSection) ss)
        \<inter> fst ` set (pre @ [(n, kv)]) = {}"
      using rest' nn by auto
    have "parseLines ?P (kvSep S) \<lparr>secs = pre, section' = c0, kvmap = m0\<rparr>
        ((headerLine n # map (pairLine S) kv) @ concat (map (\<lambda>(n, kv).
           if n = DefaultSection then [] else headerLine n # map (pairLine S) kv) ss) @ rest)
      = parseLines ?P (kvSep S) \<lparr>secs = pre @ [(n, [])], section' = n, kvmap = []\<rparr>
        (map (pairLine S) kv @ concat (map (\<lambda>(n, kv).
           if n = DefaultSection then [] else headerLine n # map (pairLine S) kv) ss) @ rest)"
      using assms(2) fresh by (simp add: parseLine_headerLine update_fresh)
    also have "\<dots> = parseLines ?P (kvSep S) \<lparr>secs = pre @ [(n, [] @ kv)], section' = n, kvmap = [] @ kv\<rparr>
        (concat (map (\<lambda>(n, kv).
           if n = DefaultSection then [] else headerLine n # map (pairLine S) kv) ss) @ rest)"
      using k fresh by (intro parseLines_pairs [OF assms(1) r]) simp_all
    finally have step: "parseLines ?P (kvSep S) \<lparr>secs = pre, section' = c0, kvmap = m0\<rparr>
        ((headerLine n # map (pairLine S) kv) @ concat (map (\<lambda>(n, kv).
           if n = DefaultSection then [] else headerLine n # map (pairLine S) kv) ss) @ rest)
      = parseLines ?P (kvSep S) \<lparr>secs = pre @ [(n, kv)], section' = n, kvmap = kv\<rparr>
        (concat (map (\<lambda>(n, kv).
           if n = DefaultSection then [] else headerLine n # map (pairLine S) kv) ss) @ rest)"
      by simp
    from Cons.IH [OF rs ds ks disj, of n kv] obtain c m where
      "parseLines ?P (kvSep S) \<lparr>secs = pre @ [(n, kv)], section' = n, kvmap = kv\<rparr>
        (concat (map (\<lambda>(n, kv).
           if n = DefaultSection then [] else headerLine n # map (pairLine S) kv) ss) @ rest)
      = parseLines ?P (kvSep S)
        \<lparr>secs = (pre @ [(n, kv)]) @ filter (\<lambda>(n, kv). n \<noteq> DefaultSection) ss,
          section' = c, kvmap = m\<rparr> rest"
      by blast
    with step False p show ?thesis
      by (intro exI [of _ c] exI [of _ m]) simp
  qed
qed

lemma map_of_default_first:
  assumes "map_of ss d = Some kv0"
  shows "map_of ((d, kv0) # filter (\<lambda>(n, kv). n \<noteq> d) ss) n = map_of ss n"
proof (cases "n = d")
  case True
  with assms show ?thesis by simp
next
  case False
  have "map_of (filter (\<lambda>(n, kv). n \<noteq> d) ss) n = map_of ss n"
    using False by (induction ss) auto
  with False show ?thesis by simp
qed

lemma Parse_Write:
  assumes "roundTrips P S" and "sections P = []" and "parseSection P"
    and "GetKvmap S DefaultSection = Some kv0"
  shows "Parse P (Write S) (lineSep S) (kvSep S) =
    (None, P\<lparr>lineSep := lineSep S, kvSep := kvSep S,
       sections := (DefaultSection, kv0) # filter (\<lambda>(n, kv). n \<noteq> DefaultSection) (sections S)\<rparr>)"
proof -
  let ?P = "P\<lparr>lineSep := lineSep S, kvSep := kvSep S\<rparr>"
  let ?blocks = "concat (map (\<lambda>(n, kv).
           if n = DefaultSection then [] else headerLine n # map (pairLine S) kv) (sections S))"
  from assms(1) have ls: "lineSep S \<noteq> []" and ks: "kvSep S \<noteq> []"
    and wf: "wfSections (sections S)"
    and all: "list_all (\<lambda>(n, kv).
         (n \<noteq> DefaultSection \<longrightarrow> terminated (lineSep S) (headerLine n)) \<and>
         list_all (pairReadable P S) kv) (sections S)"
    by (simp_all add: roundTrips_def)
  from assms(4) have in0: "(DefaultSection, kv0) \<in> set (sections S)"
    by (auto simp: GetKvmap_def dest: map_of_SomeD)
  from all have readable: "list_all (\<lambda>(n, kv). list_all (pairReadable P S) kv) (sections S)"
    by (auto simp: list_all_iff)
  from in0 readable have r0: "list_all (pairReadable P S) kv0"
    by (auto simp: list_all_iff)
  from wf have dn: "distinct (map fst (sections S))"
    and dk: "list_all (\<lambda>(n, kv). distinct (map fst kv)) (sections S)"
    by (auto simp: wfSections_def distinctKeys_def list_all_iff)
  from in0 dk have d0: "distinct (map fst kv0)" by (auto simp: list_all_iff)
  have lines: "writtenLines S = map (pairLine S) kv0 @ ?blocks"
    using assms(4) by (simp add: writtenLines_def)
  have "terminated (lineSep S) l" if "l \<in> set (writtenLines S)" for l
  proof -
    from that lines consider (default) p where "p \<in> set kv0" "l = pairLine S p"
      | (header) n kv where "(n, kv) \<in> set (sections S)" "n \<noteq> DefaultSection" "l = headerLine n"
      | (pair) n kv p where "(n, kv) \<in> set (sections S)" "p \<in> set kv" "l = pairLine S p"
      by (auto split: if_splits)
    then show ?thesis
    proof cases
      case default
      with r0 show ?thesis
        by (cases p) (auto simp: list_all_iff pairReadable_def pairLine_def Let_def)
    next
      case header
      with all show ?thesis by (auto simp: list_all_iff)
    next
      case pair
      with readable show ?thesis
        by (cases p) (auto simp: list_all_iff pairReadable_def pairLine_def Let_def)
    qed
  qed
  with ls have split: "Split (Write S) (lineSep S) = writtenLines S @ [[]]"
    by (simp add: Write_lines Split_terminated_lines)
  have "parseLines ?P (kvSep S) \<lparr>secs = [] @ [(DefaultSection, [])], section' = DefaultSection, kvmap = []\<rparr>
      (map (pairLine S) kv0 @ ?blocks @ [[]])
    = parseLines ?P (kvSep S)
        \<lparr>secs = [] @ [(DefaultSection, [] @ kv0)], section' = DefaultSection, kvmap = [] @ kv0\<rparr>
        (?blocks @ [[]])"
    using d0 by (intro parseLines_pairs [OF ks r0]) simp_all
  moreover obtain c m where "parseLines ?P (kvSep S)
        \<lparr>secs = [(DefaultSection, kv0)], section' = DefaultSection, kvmap = kv0\<rparr> (?blocks @ [[]])
    = parseLines ?P (kvSep S)
        \<lparr>secs = [(DefaultSection, kv0)] @ filter (\<lambda>(n, kv). n \<noteq> DefaultSection) (sections S),
          section' = c, kvmap = m\<rparr> [[]]"
  proof -
    have "fst ` set (filter (\<lambda>(n, kv). n \<noteq> DefaultSection) (sections S))
        \<inter> fst ` set [(DefaultSection, kv0)] = {}"
      by auto
    from parseLines_sections [OF ks assms(3) readable dn dk this,
        of "lineSep S" DefaultSection kv0 "[[]]"] that
    show ?thesis by blast
  qed
  ultimately have "parseLines ?P (kvSep S)
      \<lparr>secs = [(DefaultSection, [])], section' = DefaultSection, kvmap = []\<rparr>
      (writtenLines S @ [[]])
    = (None, \<lparr>secs = (DefaultSection, kv0) # filter (\<lambda>(n, kv). n \<noteq> DefaultSection) (sections S),
          section' = c, kvmap = m\<rparr>)"
    by (simp add: lines parseLine_blank)
  then show ?thesis
    using assms(2) split by (simp add: Parse_def parseINI_def DefaultSection_def)
qed

text \<open>
  Claim C6, as amended. Let \<open>S\<close> and the parsing store \<open>P\<close> satisfy \<open>roundTrips P S\<close>,
  and let \<open>P\<close> hold no sections and have section parsing enabled. Then parsing what
  \<open>Write S\<close> writes, with the separators of \<open>S\<close>, returns no error and leaves a store
  with the content of \<open>S\<close>: the same section names, each with the same pairs.
\<close>

theorem Write_Parse_roundtrip:
  assumes "roundTrips P S" and "sections P = []" and "parseSection P"
  shows "fst (Parse P (Write S) (lineSep S) (kvSep S)) = None \<and>
    storeMap (snd (Parse P (Write S) (lineSep S) (kvSep S))) = storeMap S"
proof -
  from assms(1) obtain kv0 where kv0: "GetKvmap S DefaultSection = Some kv0"
    by (auto simp: roundTrips_def)
  then have "map_of ((DefaultSection, kv0) # filter (\<lambda>(n, kv). n \<noteq> DefaultSection) (sections S)) n
      = map_of (sections S) n" for n
    by (intro map_of_default_first) (simp add: GetKvmap_def)
  then show ?thesis
    by (simp add: Parse_Write [OF assms kv0] storeMap_def fun_eq_iff)
qed

theorem Write_Parse_roundtrip_witness:
  "fst (Parse (SetParseSection New True)
      (Write (New\<lparr>sections := [(''s'', [(''c'', ''3'')]), ('''', [(''a'', ''1''), (''b'', ''x y'')])]\<rparr>))
      [CHR 0x0A] ''='') = None \<and>
   storeMap (snd (Parse (SetParseSection New True)
      (Write (New\<lparr>sections := [(''s'', [(''c'', ''3'')]), ('''', [(''a'', ''1''), (''b'', ''x y'')])]\<rparr>))
      [CHR 0x0A] ''=''))
     = storeMap (New\<lparr>sections := [(''s'', [(''c'', ''3'')]), ('''', [(''a'', ''1''), (''b'', ''x y'')])]\<rparr>)"
proof -
  let ?S = "New\<lparr>sections := [(''s'', [(''c'', ''3'')]), ('''', [(''a'', ''1''), (''b'', ''x y'')])]\<rparr>"
  let ?P = "SetParseSection New True"
  have 1: "roundTrips ?P ?S" by code_simp
  have 2: "sections ?P = []" by (simp add: SetParseSection_def New_def)
  have 3: "parseSection ?P" by (simp add: SetParseSection_def)
  have "lineSep ?S = [CHR 0x0A]" and "kvSep ?S = ''=''"
    by (simp_all add: New_def DefaultLineSeparator_def DefaultKeyValueSeparator_def)
  with Write_Parse_roundtrip [OF 1 2 3] show ?thesis by simp
qed

text \<open>
  Claim C6 as stated fails: neither key nor value of these two stores holds a separator,
  yet the key with a leading blank comes back trimmed, and the store without a default
  section comes back with one.
\<close>

theorem Write_Parse_roundtrip_counterexample:
  "SectionGet (Set New '' k'' ''v'') '''' '' k'' = (''v'', True) \<and>
   SectionGet (snd (Parse (SetParseSection New True) (Write (Set New '' k'' ''v''))
      (lineSep (Set New '' k'' ''v'')) (kvSep (Set New '' k'' ''v'')))) '''' '' k'' = ('''', False) \<and>
   GetKvmap (SectionSet New ''s'' ''k'' ''v'') '''' = None \<and>
   GetKvmap (snd (Parse (SetParseSection New True) (Write (SectionSet New ''s'' ''k'' ''v''))
      (lineSep (SectionSet New ''s'' ''k'' ''v'')) (kvSep (SectionSet New ''s'' ''k'' ''v'')))) ''''
     = Some []"
  by code_simp

end
